theory Spec2Isabelle
  imports Complex_Main
begin

section \<open>The camera view: enumerations and constants\<close>

text \<open>
  The model follows \<^verbatim>\<open>src/js/views/camera.js\<close> and \<^verbatim>\<open>src/js/util.js\<close>.
  Private members carry a trailing underscore in the source (\<^verbatim>\<open>frame_\<close>,
  \<^verbatim>\<open>onAnimationFrame_\<close>); the underscore is dropped here, the rest of the name is kept.
  The counters \<^verbatim>\<open>frame_\<close> and \<^verbatim>\<open>staleEffectsRefreshIndex_\<close> are JavaScript numbers
  that start at 0 and are only ever incremented by one; they are natural numbers here
  (an increment is exact below \<open>2 ^ 53\<close>). Time stamps and pixel coordinates are rationals.
\<close>

datatype DrawMode = FAST | NORMAL | BEST

datatype HeadTrackerQuality = QUALITY_LOW | QUALITY_NORMAL

definition PREVIEW_BUFFER_SKIP_FRAMES :: nat where
  "PREVIEW_BUFFER_SKIP_FRAMES = 3"

definition RIBBON_HEAD_TRACKER_SKIP_FRAMES :: nat where
  "RIBBON_HEAD_TRACKER_SKIP_FRAMES = 30"

section \<open>State of the view and what one animation frame reads\<close>

text \<open>
  Calls that leave the view (textures, processors, the tracker) are recorded in a log, in
  the order in which the source issues them. The two drawing methods of the view log
  their own invocation with the mode they were given. The resampling into the effect
  input canvas is logged without its geometry. The brackets
  \<^verbatim>\<open>performanceMonitors_.startMeasuring\<close> around the phases write to the monitors only;
  the monitor has its own section below. The capability methods of an effect are read
  as flags: the two calls of \<^verbatim>\<open>usesHeadTracker()\<close> in one frame return the same value.
\<close>

datatype call =
    ResampleEffectInput
  | DrawTrackerInput int int
  | TrackerDetect
  | TrackerUpdate
  | DrawCameraFrame DrawMode
  | FastLoadContents
  | FastProcessFrame
  | PreviewLoadContents
  | PreviewProcessFrame
  | MainLoadContents
  | MainProcessFrame
  | DrawEffectsRibbon DrawMode
  | EffectProcessFrame nat

text \<open>The members that the frame loop and the drawing methods write.\<close>

record camera =
  frame :: nat
  lastFrameTime :: rat
  staleEffectsRefreshIndex :: nat
  mainCanvasHidden :: bool
  mainPreviewCanvasHidden :: bool
  mainFastCanvasHidden :: bool
  trackerInputCanvasWidth :: int
  trackerInputCanvasHeight :: int

text \<open>The capability flags of the effect bound to \<^verbatim>\<open>mainProcessor_\<close>.\<close>

record effect =
  usesHeadTracker :: bool
  isMultiframe :: bool
  isSlow :: bool

text \<open>
  What one invocation of \<^verbatim>\<open>onAnimationFrame_\<close> reads and does not write: members set
  by other handlers (\<^verbatim>\<open>expanded_\<close>, \<^verbatim>\<open>taking_\<close>, \<^verbatim>\<open>ribbonInitialization_\<close>), the
  \<^verbatim>\<open>animating\<close> flags of the three style effects, the context, the scroll tracker, the
  video element, the tracker's \<^verbatim>\<open>busy\<close> flag, and for every entry of
  \<^verbatim>\<open>effectProcessors_\<close> the \<open>(left, right)\<close> edges of its bounding rectangle.
\<close>

record frame_env =
  active :: bool
  resizing :: bool
  currentTime :: rat
  videoWidth :: nat
  videoHeight :: nat
  mainEffect :: effect
  expanded :: bool
  taking :: bool
  toolbarAnimating :: bool
  controlsAnimating :: bool
  uiAnimating :: bool
  toastAnimating :: bool
  scrolling :: bool
  ribbonInitialization :: bool
  trackerBusy :: bool
  effectRects :: "(rat \<times> rat) list"
  bodyOffsetWidth :: rat

text \<open>The constructor: \<^verbatim>\<open>frame_ = 0\<close>, \<^verbatim>\<open>lastFrameTime_ = -1\<close>,
  \<^verbatim>\<open>staleEffectsRefreshIndex_ = 0\<close>. The wrappers' \<^verbatim>\<open>hidden\<close> attributes and the size of
  the tracker canvas come from the page, which is not part of the sources.\<close>

definition initialCamera :: "bool \<Rightarrow> bool \<Rightarrow> bool \<Rightarrow> int \<Rightarrow> int \<Rightarrow> camera" where
  "initialCamera hm hp hf w h =
     \<lparr> frame = 0, lastFrameTime = - 1, staleEffectsRefreshIndex = 0,
       mainCanvasHidden = hm, mainPreviewCanvasHidden = hp, mainFastCanvasHidden = hf,
       trackerInputCanvasWidth = w, trackerInputCanvasHeight = h \<rparr>"

section \<open>Head tracker input size\<close>

text \<open>\<^verbatim>\<open>Math.round\<close> rounds to the nearest integer, halves upwards.\<close>

definition Math_round :: "rat \<Rightarrow> int" where
  "Math_round x = \<lfloor>x + 1 / 2\<rfloor>"

text \<open>
  \<^verbatim>\<open>setHeadTrackerQuality_\<close>. The test \<^verbatim>\<open>videoRatio < 1.5\<close> on the quotient
  \<^verbatim>\<open>videoWidth / videoHeight\<close> is written without the division; for a video height of 0
  the quotient is \<^verbatim>\<open>Infinity\<close> or \<^verbatim>\<open>NaN\<close> and the test is false, as it is here.
\<close>

definition qualityScale :: "HeadTrackerQuality \<Rightarrow> rat" where
  "qualityScale quality = (case quality of QUALITY_NORMAL \<Rightarrow> 1 | QUALITY_LOW \<Rightarrow> 3 / 4)"

definition setHeadTrackerQuality :: "HeadTrackerQuality \<Rightarrow> frame_env \<Rightarrow> camera \<Rightarrow> camera" where
  "setHeadTrackerQuality quality env st =
     (let scale = qualityScale quality in
      if 2 * videoWidth env < 3 * videoHeight env
      then st\<lparr> trackerInputCanvasWidth := Math_round (120 * scale),
                trackerInputCanvasHeight := Math_round (90 * scale) \<rparr>
      else st\<lparr> trackerInputCanvasWidth := Math_round (160 * scale),
                trackerInputCanvasHeight := Math_round (90 * scale) \<rparr>)"

section \<open>Drawing the ribbon and the main frame\<close>

definition onScreen :: "rat \<Rightarrow> rat \<times> rat \<Rightarrow> bool" where
  "onScreen width r = (snd r \<ge> 0 \<and> fst r < width)"

text \<open>The loop of \<^verbatim>\<open>drawEffectsRibbon_\<close> over \<^verbatim>\<open>effectProcessors_\<close>, from \<open>index\<close> on:
  the processors drawn at once, and the list \<^verbatim>\<open>notDrawn\<close>.\<close>

fun ribbonLoop :: "DrawMode \<Rightarrow> rat \<Rightarrow> (rat \<times> rat) list \<Rightarrow> nat \<Rightarrow> call list \<times> nat list" where
  "ribbonLoop mode width [] index = ([], [])"
| "ribbonLoop mode width (r # rs) index =
     (let rest = ribbonLoop mode width rs (Suc index) in
      if mode = NORMAL \<and> onScreen width r
      then (EffectProcessFrame index # fst rest, snd rest)
      else (fst rest, index # snd rest))"

definition drawEffectsRibbon :: "DrawMode \<Rightarrow> frame_env \<Rightarrow> camera \<Rightarrow> camera \<times> call list" where
  "drawEffectsRibbon mode env st =
     (let looped = ribbonLoop mode (bodyOffsetWidth env) (effectRects env) 0;
          notDrawn = snd looped;
          st' = st\<lparr> staleEffectsRefreshIndex := staleEffectsRefreshIndex st + 1 \<rparr>
      in (st', DrawEffectsRibbon mode # fst looped @
            (if notDrawn \<noteq> []
             then [EffectProcessFrame
                     (notDrawn ! (staleEffectsRefreshIndex st' mod length notDrawn))]
             else [])))"

definition drawCameraFrame :: "DrawMode \<Rightarrow> camera \<Rightarrow> camera \<times> call list" where
  "drawCameraFrame mode st =
     (let fast = (if frame st mod 10 = 0 \<or> mode = FAST
                  then [FastLoadContents, FastProcessFrame] else [])
      in case mode of
           FAST \<Rightarrow>
             (st\<lparr> mainCanvasHidden := True, mainPreviewCanvasHidden := True,
                  mainFastCanvasHidden := False \<rparr>,
              DrawCameraFrame mode # fast)
         | NORMAL \<Rightarrow>
             (st\<lparr> mainCanvasHidden := True, mainPreviewCanvasHidden := False,
                  mainFastCanvasHidden := True \<rparr>,
              DrawCameraFrame mode # fast @ [PreviewLoadContents, PreviewProcessFrame])
         | BEST \<Rightarrow>
             (st\<lparr> mainCanvasHidden := False, mainPreviewCanvasHidden := True,
                  mainFastCanvasHidden := True \<rparr>,
              DrawCameraFrame mode # fast @ [MainLoadContents, MainProcessFrame]))"

section \<open>The frame loop\<close>

text \<open>The three early returns of \<^verbatim>\<open>onAnimationFrame_\<close>: a frame is processed when none
  of them is taken.\<close>

definition processed :: "frame_env \<Rightarrow> camera \<Rightarrow> bool" where
  "processed env st =
     (active env \<and> \<not> resizing env \<and> lastFrameTime st \<noteq> currentTime env)"

text \<open>The phases of a processed frame, each on the state the previous one left.\<close>

definition resamplePhase :: "camera \<Rightarrow> call list" where
  "resamplePhase st =
     (if frame st mod PREVIEW_BUFFER_SKIP_FRAMES = 0 then [ResampleEffectInput] else [])"

definition requestHeadTrackerUpdate :: "frame_env \<Rightarrow> camera \<Rightarrow> bool" where
  "requestHeadTrackerUpdate env st =
     (usesHeadTracker (mainEffect env) \<or>
      (expanded env \<and> frame st mod RIBBON_HEAD_TRACKER_SKIP_FRAMES = 0))"

definition trackerPhase :: "frame_env \<Rightarrow> camera \<Rightarrow> camera \<times> call list" where
  "trackerPhase env st =
     (if \<not> trackerBusy env \<and> requestHeadTrackerUpdate env st
      then
        (let st' = setHeadTrackerQuality
                     (if usesHeadTracker (mainEffect env) then QUALITY_NORMAL else QUALITY_LOW)
                     env st
         in (st', [DrawTrackerInput (trackerInputCanvasWidth st') (trackerInputCanvasHeight st'),
                   TrackerDetect]))
      else (st, []))"

definition drawPhase :: "frame_env \<Rightarrow> camera \<Rightarrow> camera \<times> call list" where
  "drawPhase env st =
     (if isMultiframe (mainEffect env) then drawCameraFrame BEST st
      else if taking env \<or> toolbarAnimating env \<or> controlsAnimating env \<or>
              isSlow (mainEffect env) \<or> uiAnimating env \<or> toastAnimating env \<or>
              (scrolling env \<and> expanded env)
      then drawCameraFrame FAST st
      else drawCameraFrame NORMAL st)"

definition ribbonPhase :: "frame_env \<Rightarrow> camera \<Rightarrow> camera \<times> call list" where
  "ribbonPhase env st =
     (if (\<not> taking env \<and> \<not> controlsAnimating env \<and> \<not> uiAnimating env \<and>
          \<not> scrolling env \<and> \<not> toolbarAnimating env \<and> \<not> toastAnimating env) \<or>
         ribbonInitialization env
      then (if expanded env \<and> frame st mod PREVIEW_BUFFER_SKIP_FRAMES = 0
            then drawEffectsRibbon NORMAL env st
            else drawEffectsRibbon FAST env st)
      else (st, []))"

text \<open>What lies between the two increments of \<^verbatim>\<open>frame_\<close>: resampling, the detection
  request, the tracker's update, the main frame, the ribbon.\<close>

definition frameBody :: "frame_env \<Rightarrow> camera \<Rightarrow> camera \<times> call list" where
  "frameBody env st =
     (let c1 = resamplePhase st;
          t = trackerPhase env st;
          d = drawPhase env (fst t);
          r = ribbonPhase env (fst d)
      in (fst r, c1 @ snd t @ [TrackerUpdate] @ snd d @ snd r))"

definition onAnimationFrame :: "frame_env \<Rightarrow> camera \<Rightarrow> camera \<times> call list" where
  "onAnimationFrame env st =
     (if \<not> active env then (st, [])
      else if resizing env then (st, [])
      else if lastFrameTime st = currentTime env then (st, [])
      else
        (let b = frameBody env (st\<lparr> frame := frame st + 1 \<rparr>);
             st2 = (fst b)\<lparr> frame := frame (fst b) + 1 \<rparr>
         in (st2\<lparr> lastFrameTime := currentTime env \<rparr>, snd b)))"

text \<open>The values of \<^verbatim>\<open>frame_\<close> that the cadence tests of one body read, in source order:
  \<^verbatim>\<open>% PREVIEW_BUFFER_SKIP_FRAMES\<close> before resampling,
  \<^verbatim>\<open>% RIBBON_HEAD_TRACKER_SKIP_FRAMES\<close> in the detection request, \<^verbatim>\<open>% 10\<close> in
  \<^verbatim>\<open>drawCameraFrame_\<close>, and \<^verbatim>\<open>% PREVIEW_BUFFER_SKIP_FRAMES\<close> before the ribbon.\<close>

definition cadenceReads :: "frame_env \<Rightarrow> camera \<Rightarrow> nat list" where
  "cadenceReads env st =
     (let t = trackerPhase env st; d = drawPhase env (fst t)
      in [frame st, frame st, frame (fst t), frame (fst d)])"

text \<open>A run of the loop: one environment per invocation, the logs concatenated.\<close>

fun runFrames :: "frame_env list \<Rightarrow> camera \<Rightarrow> camera \<times> call list" where
  "runFrames [] st = (st, [])"
| "runFrames (env # envs) st =
     (let a = onAnimationFrame env st; b = runFrames envs (fst a)
      in (fst b, snd a @ snd b))"

text \<open>\<^verbatim>\<open>drawEffectsRibbon_\<close> invoked once per environment of the list, in the given mode.\<close>

fun runRibbon :: "DrawMode \<Rightarrow> frame_env list \<Rightarrow> camera \<Rightarrow> camera \<times> call list" where
  "runRibbon mode [] st = (st, [])"
| "runRibbon mode (env # envs) st =
     (let a = drawEffectsRibbon mode env st; b = runRibbon mode envs (fst a)
      in (fst b, snd a @ snd b))"

text \<open>The list \<^verbatim>\<open>notDrawn\<close> that \<^verbatim>\<open>drawEffectsRibbon_\<close> builds in an environment.\<close>

definition notDrawnIn :: "DrawMode \<Rightarrow> frame_env \<Rightarrow> nat list" where
  "notDrawnIn mode env = snd (ribbonLoop mode (bodyOffsetWidth env) (effectRects env) 0)"

text \<open>The modes of the \<^verbatim>\<open>drawCameraFrame_\<close> invocations in a log.\<close>

fun drawModes :: "call list \<Rightarrow> DrawMode list" where
  "drawModes [] = []"
| "drawModes (DrawCameraFrame m # cs) = m # drawModes cs"
| "drawModes (c # cs) = drawModes cs"



text \<open>The sizes at which the video was drawn into the tracker's input canvas.\<close>

fun trackerInputs :: "call list \<Rightarrow> (int \<times> int) list" where
  "trackerInputs [] = []"
| "trackerInputs (DrawTrackerInput w h # cs) = (w, h) # trackerInputs cs"
| "trackerInputs (c # cs) = trackerInputs cs"

text \<open>The wrappers of the three main canvases that are shown:
  full quality, preview, fast.\<close>

datatype surface = MainSurface | PreviewSurface | FastSurface

definition visibleSurfaces :: "camera \<Rightarrow> surface list" where
  "visibleSurfaces st =
     (if mainCanvasHidden st then [] else [MainSurface]) @
     (if mainPreviewCanvasHidden st then [] else [PreviewSurface]) @
     (if mainFastCanvasHidden st then [] else [FastSurface])"

section \<open>Performance monitors\<close>

text \<open>
  \<^verbatim>\<open>camera.util.PerformanceMonitor\<close> of \<^verbatim>\<open>util.js\<close>. A probe is a pair of a time stamp and
  a duration, in milliseconds. Every reading of \<^verbatim>\<open>performance.now()\<close> is an argument of
  the function that makes it, in the order of the readings. Arithmetic on the readings is
  exact; a quotient with divisor zero is \<^verbatim>\<open>Infinity\<close> or \<^verbatim>\<open>NaN\<close> as in JavaScript.
\<close>

datatype js_number = Finite rat | Infinity | NaN

datatype js_error = TypeError

record PerformanceMonitor =
  probes :: "(rat \<times> rat) list"
  tailStartTime :: rat

definition HISTORY_LENGTH :: rat where
  "HISTORY_LENGTH = 3 * 1000"

definition newPerformanceMonitor :: "rat \<Rightarrow> PerformanceMonitor" where
  "newPerformanceMonitor now = \<lparr> probes = [], tailStartTime = now \<rparr>"

text \<open>\<^verbatim>\<open>count / elapsed * 1000\<close> for a count that is a length.\<close>

definition perSecond :: "nat \<Rightarrow> rat \<Rightarrow> js_number" where
  "perSecond count elapsed =
     (if elapsed \<noteq> 0 then Finite (of_nat count / elapsed * 1000)
      else if count = 0 then NaN else Infinity)"

definition fps :: "rat \<Rightarrow> PerformanceMonitor \<Rightarrow> js_number" where
  "fps now m =
     (if tailStartTime m \<noteq> 0 then perSecond (length (probes m)) (now - tailStartTime m)
      else Finite 0)"

definition average :: "PerformanceMonitor \<Rightarrow> rat" where
  "average m =
     (if probes m = [] then 0
      else sum_list (map snd (probes m)) / of_nat (length (probes m)))"

definition reset :: "rat \<Rightarrow> PerformanceMonitor \<Rightarrow> PerformanceMonitor" where
  "reset now m = m\<lparr> tailStartTime := now, probes := [] \<rparr>"

text \<open>\<^verbatim>\<open>startMeasuring\<close> reads the clock and binds the reading into the completion
  callback; a completion is that start time with the three readings that
  \<^verbatim>\<open>finishMeasuring_\<close> makes: for the time stamp, for the duration, for the threshold.\<close>

record completion =
  startTime :: rat
  nowStamp :: rat
  nowDuration :: rat
  nowThreshold :: rat

definition startMeasuring :: "rat \<Rightarrow> rat" where
  "startMeasuring now = now"

definition probeOf :: "completion \<Rightarrow> rat \<times> rat" where
  "probeOf c = (nowStamp c, nowDuration c - startTime c)"

text \<open>The \<^verbatim>\<open>while\<close> loop of \<^verbatim>\<open>finishMeasuring_\<close>: the value of \<^verbatim>\<open>i\<close> when it ends.\<close>

fun discardIndex :: "rat \<Rightarrow> (rat \<times> rat) list \<Rightarrow> nat" where
  "discardIndex threshold [] = 0"
| "discardIndex threshold (p # ps) =
     (if fst p < threshold then Suc (discardIndex threshold ps) else 0)"

text \<open>\<^verbatim>\<open>finishMeasuring_\<close>. When the loop runs past the last probe, \<^verbatim>\<open>this.probes_[i]\<close> is
  \<^verbatim>\<open>undefined\<close> and reading its element 0 throws.\<close>

definition finishMeasuring :: "completion \<Rightarrow> PerformanceMonitor \<Rightarrow> js_error + PerformanceMonitor" where
  "finishMeasuring c m =
     (let ps = probes m @ [probeOf c];
          threshold = nowThreshold c - HISTORY_LENGTH;
          i = discardIndex threshold ps
      in if i > 0
         then (if i < length ps
               then Inr (m\<lparr> tailStartTime := fst (ps ! i), probes := drop i ps \<rparr>)
               else Inl TypeError)
         else Inr (m\<lparr> probes := ps \<rparr>))"

text \<open>Completions in the order in which they are called, up to the first that throws.\<close>

fun runCompletions :: "completion list \<Rightarrow> PerformanceMonitor \<Rightarrow> js_error + PerformanceMonitor" where
  "runCompletions [] m = Inr m"
| "runCompletions (c # cs) m =
     (case finishMeasuring c m of Inl e \<Rightarrow> Inl e | Inr m' \<Rightarrow> runCompletions cs m')"

text \<open>The clock does not run backwards: the readings of the completions, in order, from
  a reading \<open>t\<close> on.\<close>

fun clockOrdered :: "rat \<Rightarrow> completion list \<Rightarrow> bool" where
  "clockOrdered t [] = True"
| "clockOrdered t (c # cs) =
     (t \<le> nowStamp c \<and> nowStamp c \<le> nowDuration c \<and> nowDuration c \<le> nowThreshold c \<and>
      clockOrdered (nowThreshold c) cs)"

text \<open>No completion takes longer than the history: its threshold does not pass its own
  time stamp.\<close>

fun prompt :: "completion list \<Rightarrow> bool" where
  "prompt [] = True"
| "prompt (c # cs) = (nowThreshold c - HISTORY_LENGTH \<le> nowStamp c \<and> prompt cs)"

text \<open>A completion whose three readings are the same instant \<open>t\<close>, started 4 ms before.\<close>

definition instant :: "rat \<Rightarrow> completion" where
  "instant t = \<lparr> startTime = t - 4, nowStamp = t, nowDuration = t, nowThreshold = t \<rparr>"

section \<open>Starting the capture\<close>

text \<open>
  \<^verbatim>\<open>start_\<close>, \<^verbatim>\<open>startWithResolution_\<close> and \<^verbatim>\<open>stop\<close> of \<^verbatim>\<open>camera.js\<close>. The host's timers
  are a table of pending entries (handle, task, delay in ms); a handle is a fresh positive
  number. \<^verbatim>\<open>setTimeout(tryNextResolution, 0)\<close> takes a handle and has fired when the next
  attempt runs. What the callbacks of \<^verbatim>\<open>webkitGetUserMedia\<close> and the idle listener bring is
  read from a script: for the attempt with a given index, whether the device is locked
  when \<^verbatim>\<open>tryNextResolution\<close> runs and how the request is answered. The window geometry
  set on success is left out.
\<close>

definition RESOLUTIONS :: "(nat \<times> nat) list" where
  "RESOLUTIONS = [(1920, 1080), (1280, 720), (800, 600), (640, 480)]"

datatype timer_task = StartTask | RibbonInitializationTask | WatchdogTask

datatype start_call =
    GetUserMedia nat nat
  | VideoPause
  | RunFrameLoop
  | RemoveInitializing
  | OnError string
  | OnErrorRecovered string

record capture =
  running :: bool
  capturing :: bool
  retryStartTimer :: "nat option"
  watchdog :: "nat option"
  timers :: "(nat \<times> timer_task \<times> nat) list"
  lastHandle :: nat
  calls :: "start_call list"

datatype media_outcome = Granted | Refused | Unanswered

record negotiation =
  lockedAt :: "nat \<Rightarrow> bool"
  outcomeAt :: "nat \<Rightarrow> media_outcome"

definition setTimer :: "timer_task \<Rightarrow> nat \<Rightarrow> capture \<Rightarrow> capture" where
  "setTimer task delay st =
     st\<lparr> timers := timers st @ [(Suc (lastHandle st), task, delay)],
         lastHandle := Suc (lastHandle st) \<rparr>"

definition clearTimer :: "nat \<Rightarrow> capture \<Rightarrow> capture" where
  "clearTimer h st = st\<lparr> timers := filter (\<lambda>e. fst e \<noteq> h) (timers st) \<rparr>"

text \<open>A timer that is set with delay 0 and has fired: only its handle is used up.\<close>

definition zeroTimeout :: "capture \<Rightarrow> capture" where
  "zeroTimeout st = st\<lparr> lastHandle := Suc (lastHandle st) \<rparr>"

text \<open>\<^verbatim>\<open>if (this.retryStartTimer_) { clearTimeout(...); this.retryStartTimer_ = null; }\<close>
  and its like for the watchdog: \<^verbatim>\<open>null\<close> and 0 are falsy.\<close>

definition scheduleRetry :: "capture \<Rightarrow> capture" where
  "scheduleRetry st =
     (let st1 = (case retryStartTimer st of
                   None \<Rightarrow> st
                 | Some h \<Rightarrow> if h \<noteq> 0 then (clearTimer h st)\<lparr> retryStartTimer := None \<rparr> else st);
          st2 = setTimer StartTask 1000 st1
      in st2\<lparr> retryStartTimer := Some (lastHandle st2) \<rparr>)"

definition stop :: "capture \<Rightarrow> capture" where
  "stop st =
     (let st1 = st\<lparr> running := False, capturing := False, calls := calls st @ [VideoPause] \<rparr>
      in case watchdog st1 of
           None \<Rightarrow> st1
         | Some h \<Rightarrow> if h \<noteq> 0 then (clearTimer h st1)\<lparr> watchdog := None \<rparr> else st1)"

text \<open>The synchronous part of \<^verbatim>\<open>startWithResolution_\<close>.\<close>

definition startWithResolution :: "nat \<times> nat \<Rightarrow> capture \<Rightarrow> capture" where
  "startWithResolution resolution st =
     (let st1 = (if running st then stop st else st)
      in st1\<lparr> calls := calls st1 @ [GetUserMedia (fst resolution) (snd resolution)] \<rparr>)"

text \<open>The stream is there and its metadata loaded: the watchdog and the frame loop
  start, then \<^verbatim>\<open>onSuccess\<close> runs.\<close>

definition onLoadedMetadata :: "capture \<Rightarrow> capture" where
  "onLoadedMetadata st =
     (let st1 = setTimer WatchdogTask 1000 (st\<lparr> running := True \<rparr>)
      in st1\<lparr> watchdog := Some (lastHandle st1), capturing := True,
              calls := calls st1 @ [RunFrameLoop] \<rparr>)"

definition onSuccess :: "capture \<Rightarrow> capture" where
  "onSuccess st =
     (let st1 = setTimer RibbonInitializationTask 500
                  (st\<lparr> calls := calls st @ [RemoveInitializing] \<rparr>);
          st2 = (case retryStartTimer st1 of
                   None \<Rightarrow> st1
                 | Some h \<Rightarrow> if h \<noteq> 0 then (clearTimer h st1)\<lparr> retryStartTimer := None \<rparr> else st1)
      in st2\<lparr> calls := calls st2 @ [OnErrorRecovered ''no-camera''] \<rparr>)"

definition onFailure :: "capture \<Rightarrow> capture" where
  "onFailure st =
     scheduleRetry (st\<lparr> calls := calls st @ [RemoveInitializing, OnError ''no-camera''] \<rparr>)"

text \<open>\<^verbatim>\<open>tryNextResolution\<close> with the closure's \<^verbatim>\<open>index\<close> as an argument. An index
  past the ladder would read \<^verbatim>\<open>undefined[0]\<close>.\<close>

function tryNextResolution :: "negotiation \<Rightarrow> nat \<Rightarrow> capture \<Rightarrow> js_error + capture" where
  "tryNextResolution env index st =
     (if lockedAt env index then Inr (scheduleRetry st)
      else if \<not> index < length RESOLUTIONS then Inl TypeError
      else
        (let st1 = startWithResolution (RESOLUTIONS ! index) st
         in case outcomeAt env index of
              Granted \<Rightarrow> Inr (onSuccess (onLoadedMetadata st1))
            | Unanswered \<Rightarrow> Inr st1
            | Refused \<Rightarrow>
                (if Suc index < length RESOLUTIONS
                 then tryNextResolution env (Suc index) (zeroTimeout st1)
                 else Inr (onFailure st1))))"
  by pat_completeness auto
termination
  by (relation "measure (\<lambda>(env, index, st). length RESOLUTIONS - index)") auto

definition start :: "negotiation \<Rightarrow> capture \<Rightarrow> js_error + capture" where
  "start env st =
     (if lockedAt env 0 then Inr (scheduleRetry st) else tryNextResolution env 0 st)"

text \<open>What a log of the negotiation shows: the resolutions requested and the errors
  reported, in order.\<close>

fun attempted :: "start_call list \<Rightarrow> (nat \<times> nat) list" where
  "attempted [] = []"
| "attempted (GetUserMedia w h # cs) = (w, h) # attempted cs"
| "attempted (c # cs) = attempted cs"

fun reported :: "start_call list \<Rightarrow> string list" where
  "reported [] = []"
| "reported (OnError name # cs) = name # reported cs"
| "reported (c # cs) = reported cs"

text \<open>The pending timers that will run \<^verbatim>\<open>start_\<close> again: handle and delay.\<close>

definition pendingRetries :: "capture \<Rightarrow> (nat \<times> nat) list" where
  "pendingRetries st = map (\<lambda>e. (fst e, snd (snd e))) (filter (\<lambda>e. fst (snd e) = StartTask) (timers st))"

text \<open>Every pending retry timer is the one whose handle \<^verbatim>\<open>retryStartTimer_\<close> holds.\<close>

definition singleSlot :: "capture \<Rightarrow> bool" where
  "singleSlot st =
     list_all (\<lambda>e. fst (snd e) \<noteq> StartTask \<or> (fst e \<noteq> 0 \<and> retryStartTimer st = Some (fst e)))
       (timers st)"

text \<open>The index, from \<open>index\<close> on, of the first attempt of the ladder that the script does
  not refuse (the length of the ladder when it refuses them all); from 0 on, this is the
  number of leading refusals.\<close>

definition answerFrom :: "negotiation \<Rightarrow> nat \<Rightarrow> nat" where
  "answerFrom env index =
     index + length (takeWhile (\<lambda>i. outcomeAt env i = Refused) [index..<length RESOLUTIONS])"

definition refusals :: "negotiation \<Rightarrow> nat" where
  "refusals env = answerFrom env 0"

text \<open>The index, from \<open>index\<close> on, of the first attempt of the ladder at which the device
  is locked or the request is not refused (the length of the ladder when there is none):
  where the ladder halts.\<close>

definition haltFrom :: "negotiation \<Rightarrow> nat \<Rightarrow> nat" where
  "haltFrom env index =
     index + length (takeWhile (\<lambda>i. \<not> lockedAt env i \<and> outcomeAt env i = Refused)
                       [index..<length RESOLUTIONS])"

definition haltIndex :: "negotiation \<Rightarrow> nat" where
  "haltIndex env = haltFrom env 0"

text \<open>What a call of \<^verbatim>\<open>start_\<close> leaves to see: the resolutions requested, the errors
  reported, the delays of the pending retry timers, and whether the capture runs.\<close>

definition negotiated ::
  "js_error + capture \<Rightarrow> ((nat \<times> nat) list \<times> string list \<times> nat list \<times> bool) option" where
  "negotiated result =
     (case result of
        Inl e \<Rightarrow> None
      | Inr st \<Rightarrow>
          Some (attempted (calls st), reported (calls st), map snd (pendingRetries st), running st))"

text \<open>Scripts: never locked and every request refused; never locked, two requests refused
  and the third granted; locked from the start; locked after the first refusal.\<close>

definition neverLocked :: "nat \<Rightarrow> bool" where
  "neverLocked i = False"

definition lockedAfterFirst :: "nat \<Rightarrow> bool" where
  "lockedAfterFirst i = (0 < i)"

definition alwaysLocked :: "nat \<Rightarrow> bool" where
  "alwaysLocked i = True"

definition allRefused :: "nat \<Rightarrow> media_outcome" where
  "allRefused i = Refused"

definition thirdGranted :: "nat \<Rightarrow> media_outcome" where
  "thirdGranted i = (if i = 2 then Granted else Refused)"

definition refusingScript :: negotiation where
  "refusingScript = \<lparr> lockedAt = neverLocked, outcomeAt = allRefused \<rparr>"

definition grantingScript :: negotiation where
  "grantingScript = \<lparr> lockedAt = neverLocked, outcomeAt = thirdGranted \<rparr>"

definition lockedScript :: negotiation where
  "lockedScript = \<lparr> lockedAt = alwaysLocked, outcomeAt = allRefused \<rparr>"

definition lockingScript :: negotiation where
  "lockingScript = \<lparr> lockedAt = lockedAfterFirst, outcomeAt = allRefused \<rparr>"

text \<open>The view before its first start, and a view that waits for a retry.\<close>

definition idleCapture :: capture where
  "idleCapture =
     \<lparr> running = False, capturing = False, retryStartTimer = None, watchdog = None,
       timers = [], lastHandle = 0, calls = [] \<rparr>"

definition waitingCapture :: capture where
  "waitingCapture =
     \<lparr> running = False, capturing = False, retryStartTimer = Some 7, watchdog = None,
       timers = [(7, StartTask, 1000)], lastHandle = 7, calls = [] \<rparr>"

section \<open>Environments used to evaluate the frame loop\<close>

text \<open>A visible, idle view on a 1280x720 video whose frame carries time stamp \<open>t\<close>:
  nothing animates, the tracker is idle, the current effect has no capability flag, and
  the ribbon holds five previews: two on screen, two right of the window, one left of it.\<close>

definition plainEffect :: effect where
  "plainEffect = \<lparr> usesHeadTracker = False, isMultiframe = False, isSlow = False \<rparr>"

definition idleFrame :: "bool \<Rightarrow> rat \<Rightarrow> frame_env" where
  "idleFrame ribbonExpanded t =
     \<lparr> active = True, resizing = False, currentTime = t,
       videoWidth = 1280, videoHeight = 720, mainEffect = plainEffect,
       expanded = ribbonExpanded, taking = False, toolbarAnimating = False,
       controlsAnimating = False, uiAnimating = False, toastAnimating = False,
       scrolling = False, ribbonInitialization = False, trackerBusy = False,
       effectRects = [(0, 100), (100, 200), (1300, 1400), (1400, 1500), (- 300, - 200)],
       bodyOffsetWidth = 1280 \<rparr>"

definition freshCamera :: camera where
  "freshCamera = initialCamera False True True 300 150"



text \<open>Time stamps \<open>1, 2, \<dots>, n\<close>: \<open>n\<close> consecutive new video frames.\<close>

definition stamps :: "nat \<Rightarrow> rat list" where
  "stamps n = map (\<lambda>k. of_nat (Suc k)) [0..<n]"

section \<open>Properties\<close>

subsection \<open>What the phases log, and that they leave the frame counter alone\<close>

lemmas env_defs = idleFrame_def plainEffect_def freshCamera_def initialCamera_def

lemma drawModes_append: "drawModes (xs @ ys) = drawModes xs @ drawModes ys"
  by (induction xs rule: drawModes.induct) simp_all

lemma drawModes_ribbonLoop: "drawModes (fst (ribbonLoop mode width rs index)) = []"
  by (induction rs arbitrary: index) (auto simp add: Let_def)

lemma drawModes_drawEffectsRibbon: "drawModes (snd (drawEffectsRibbon mode env st)) = []"
  by (simp add: drawEffectsRibbon_def Let_def drawModes_append drawModes_ribbonLoop)

lemma drawModes_ribbonPhase: "drawModes (snd (ribbonPhase env st)) = []"
  by (simp add: ribbonPhase_def drawModes_drawEffectsRibbon)

lemma drawModes_trackerPhase: "drawModes (snd (trackerPhase env st)) = []"
  by (simp add: trackerPhase_def Let_def)

lemma drawModes_resamplePhase: "drawModes (resamplePhase st) = []"
  by (simp add: resamplePhase_def)

lemma drawModes_drawCameraFrame: "drawModes (snd (drawCameraFrame mode st)) = [mode]"
  by (cases mode) (simp_all add: drawCameraFrame_def Let_def drawModes_append)

lemma drawModes_frameBody:
  "drawModes (snd (frameBody env st)) = drawModes (snd (drawPhase env (fst (trackerPhase env st))))"
  by (simp add: frameBody_def Let_def drawModes_append drawModes_ribbonPhase
      drawModes_trackerPhase drawModes_resamplePhase)

lemma snd_onAnimationFrame:
  "processed env st \<Longrightarrow>
   snd (onAnimationFrame env st) = snd (frameBody env (st\<lparr> frame := frame st + 1 \<rparr>))"
  by (simp add: onAnimationFrame_def processed_def Let_def)

lemma frame_setHeadTrackerQuality: "frame (setHeadTrackerQuality q env st) = frame st"
  by (simp add: setHeadTrackerQuality_def Let_def)

lemma frame_trackerPhase: "frame (fst (trackerPhase env st)) = frame st"
  by (simp add: trackerPhase_def Let_def frame_setHeadTrackerQuality)

lemma frame_drawCameraFrame: "frame (fst (drawCameraFrame mode st)) = frame st"
  by (cases mode) (simp_all add: drawCameraFrame_def Let_def)

lemma frame_drawPhase: "frame (fst (drawPhase env st)) = frame st"
  by (simp add: drawPhase_def frame_drawCameraFrame)

lemma frame_drawEffectsRibbon: "frame (fst (drawEffectsRibbon mode env st)) = frame st"
  by (simp add: drawEffectsRibbon_def Let_def)

lemma frame_ribbonPhase: "frame (fst (ribbonPhase env st)) = frame st"
  by (simp add: ribbonPhase_def frame_drawEffectsRibbon)

lemma frame_frameBody: "frame (fst (frameBody env st)) = frame st"
  by (simp add: frameBody_def Let_def frame_ribbonPhase frame_drawPhase frame_trackerPhase)

lemma frame_onAnimationFrame:
  "frame (fst (onAnimationFrame env st)) = (if processed env st then frame st + 2 else frame st)"
  by (auto simp add: onAnimationFrame_def processed_def Let_def frame_frameBody)

lemma even_frame_runFrames:
  "even (frame st) \<Longrightarrow> even (frame (fst (runFrames envs st)))"
  by (induction envs arbitrary: st) (simp_all add: Let_def frame_onAnimationFrame)

lemma cadenceReads_frame: "v \<in> set (cadenceReads env st) \<Longrightarrow> v = frame st"
  by (auto simp add: cadenceReads_def Let_def frame_trackerPhase frame_drawPhase)

lemma set_ribbonLoop: "set (fst (ribbonLoop mode width rs index)) \<subseteq> range EffectProcessFrame"
  by (induction rs arbitrary: index) (auto simp add: Let_def)

lemma set_drawEffectsRibbon:
  "set (snd (drawEffectsRibbon mode env st)) \<subseteq> insert (DrawEffectsRibbon mode) (range EffectProcessFrame)"
  using set_ribbonLoop [of mode "bodyOffsetWidth env" "effectRects env" 0]
  by (auto simp add: drawEffectsRibbon_def Let_def)

lemma set_ribbonPhase:
  "set (snd (ribbonPhase env st)) \<subseteq> range DrawEffectsRibbon \<union> range EffectProcessFrame"
  using set_drawEffectsRibbon [of NORMAL env st] set_drawEffectsRibbon [of FAST env st]
  by (auto simp add: ribbonPhase_def)

lemma tracker_not_in_ribbonPhase:
  "TrackerDetect \<notin> set (snd (ribbonPhase env st))" "TrackerUpdate \<notin> set (snd (ribbonPhase env st))"
  "FastLoadContents \<notin> set (snd (ribbonPhase env st))" "FastProcessFrame \<notin> set (snd (ribbonPhase env st))"
  using set_ribbonPhase [of env st] by auto

lemma set_drawCameraFrame:
  "set (snd (drawCameraFrame mode st)) \<subseteq>
     {DrawCameraFrame mode, FastLoadContents, FastProcessFrame, PreviewLoadContents,
      PreviewProcessFrame, MainLoadContents, MainProcessFrame}"
  by (cases mode) (auto simp add: drawCameraFrame_def Let_def)

lemma tracker_not_in_drawPhase:
  "TrackerDetect \<notin> set (snd (drawPhase env st))" "TrackerUpdate \<notin> set (snd (drawPhase env st))"
  using set_drawCameraFrame [of BEST st] set_drawCameraFrame [of FAST st]
    set_drawCameraFrame [of NORMAL st]
  by (auto simp add: drawPhase_def)

lemma count_trackerPhase:
  "count_list (snd (trackerPhase env st)) TrackerUpdate = 0"
  "count_list (snd (trackerPhase env st)) TrackerDetect =
     (if \<not> trackerBusy env \<and> requestHeadTrackerUpdate env st then 1 else 0)"
  by (simp_all add: trackerPhase_def Let_def)

lemma count_resamplePhase:
  "count_list (resamplePhase st) TrackerUpdate = 0" "count_list (resamplePhase st) TrackerDetect = 0"
  by (simp_all add: resamplePhase_def)

lemma count_frameBody_tracker:
  "count_list (snd (frameBody env st)) TrackerUpdate = 1"
  "count_list (snd (frameBody env st)) TrackerDetect =
     (if \<not> trackerBusy env \<and> requestHeadTrackerUpdate env st then 1 else 0)"
  using tracker_not_in_drawPhase [of env "fst (trackerPhase env st)"]
    tracker_not_in_ribbonPhase [of env "fst (drawPhase env (fst (trackerPhase env st)))"]
  by (simp_all add: frameBody_def Let_def count_trackerPhase count_resamplePhase
      count_list_0_iff [THEN iffD2])

lemma detect_iff:
  assumes "processed env st"
  shows "TrackerDetect \<in> set (snd (onAnimationFrame env st)) \<longleftrightarrow>
         \<not> trackerBusy env \<and>
         (usesHeadTracker (mainEffect env) \<or>
          (expanded env \<and> (frame st + 1) mod RIBBON_HEAD_TRACKER_SKIP_FRAMES = 0))"
proof -
  have "TrackerDetect \<in> set (snd (onAnimationFrame env st)) \<longleftrightarrow>
        count_list (snd (onAnimationFrame env st)) TrackerDetect \<noteq> 0"
    by (simp add: count_list_0_iff)
  then show ?thesis
    using assms
    by (simp add: snd_onAnimationFrame count_frameBody_tracker requestHeadTrackerUpdate_def)
qed

lemma no_detect_for_ribbon_only:
  assumes "even (frame st)" and "\<not> usesHeadTracker (mainEffect env)"
  shows "TrackerDetect \<notin> set (snd (onAnimationFrame env st))"
proof (cases "processed env st")
  case True
  have "odd (frame st + 1)" using assms(1) by simp
  then have "(frame st + 1) mod 30 \<noteq> 0"
    by presburger
  then show ?thesis
    using detect_iff [OF True] assms(2) by (simp add: RIBBON_HEAD_TRACKER_SKIP_FRAMES_def)
next
  case False
  then show ?thesis by (auto simp add: onAnimationFrame_def processed_def)
qed

subsection \<open>Draw mode selection\<close>

text \<open>
  C1. On a processed frame \<^verbatim>\<open>drawCameraFrame_\<close> is invoked exactly once, and its mode is a
  function of the flags alone, with fixed priority: BEST when the current effect is
  multiframe, whatever the other flags are (a scroll in progress included); otherwise FAST
  when a picture is being taken, the toolbar, window controls or toast transition is
  animating, the effect is slow, the UI animates, or the ribbon is expanded and being
  scrolled; otherwise NORMAL.
\<close>

theorem drawMode_priority:
  assumes "processed env st"
  shows "(isMultiframe (mainEffect env) \<longrightarrow>
            drawModes (snd (onAnimationFrame env st)) = [BEST]) \<and>
         (\<not> isMultiframe (mainEffect env) \<and>
            (taking env \<or> toolbarAnimating env \<or> controlsAnimating env \<or>
             isSlow (mainEffect env) \<or> uiAnimating env \<or> toastAnimating env \<or>
             (scrolling env \<and> expanded env)) \<longrightarrow>
            drawModes (snd (onAnimationFrame env st)) = [FAST]) \<and>
         (\<not> isMultiframe (mainEffect env) \<and>
            \<not> (taking env \<or> toolbarAnimating env \<or> controlsAnimating env \<or>
             isSlow (mainEffect env) \<or> uiAnimating env \<or> toastAnimating env \<or>
             (scrolling env \<and> expanded env)) \<longrightarrow>
            drawModes (snd (onAnimationFrame env st)) = [NORMAL])"
  using assms
  by (simp add: snd_onAnimationFrame drawModes_frameBody drawPhase_def drawModes_drawCameraFrame)

theorem drawMode_priority_witness:
  "drawModes (snd (onAnimationFrame
      ((idleFrame True 1)\<lparr> mainEffect := plainEffect\<lparr> isMultiframe := True \<rparr>, scrolling := True \<rparr>)
      freshCamera)) = [BEST] \<and>
   drawModes (snd (onAnimationFrame ((idleFrame True 1)\<lparr> scrolling := True \<rparr>) freshCamera)) = [FAST] \<and>
   drawModes (snd (onAnimationFrame (idleFrame True 1) freshCamera)) = [NORMAL]"
proof -
  have p: "processed ((idleFrame True 1)\<lparr> mainEffect := plainEffect\<lparr> isMultiframe := True \<rparr>, scrolling := True \<rparr>) freshCamera"
    "processed ((idleFrame True 1)\<lparr> scrolling := True \<rparr>) freshCamera"
    "processed (idleFrame True 1) freshCamera"
    by (simp_all add: processed_def env_defs)
  show ?thesis
    using p(1) [THEN drawMode_priority] p(2) [THEN drawMode_priority] p(3) [THEN drawMode_priority]
    by (simp add: env_defs)
qed

subsection \<open>The frame counter\<close>

text \<open>
  C10. In every state that the frame loop reaches from the constructor's, a processed frame
  increments \<^verbatim>\<open>frame_\<close> once before the body and once after the ribbon phase: the
  counter advances by 2, the body itself leaves it alone, and every value that a cadence
  test of the body reads (modulo 3, 30, 10 and 3 again) is odd.
\<close>

theorem frame_counter_twice_and_odd:
  assumes "st = fst (runFrames envs (initialCamera hm hp hf w h))"
    and "processed env st"
  shows "frame (fst (onAnimationFrame env st)) = frame st + 2 \<and>
         fst (onAnimationFrame env st) =
           (fst (frameBody env (st\<lparr> frame := frame st + 1 \<rparr>)))
             \<lparr> frame := frame st + 1 + 1, lastFrameTime := currentTime env \<rparr> \<and>
         (\<forall>v \<in> set (cadenceReads env (st\<lparr> frame := frame st + 1 \<rparr>)). odd v)"
proof -
  have ev: "even (frame st)"
    unfolding assms(1) by (rule even_frame_runFrames) (simp add: initialCamera_def)
  have a: "frame (fst (onAnimationFrame env st)) = frame st + 2"
    using assms(2) by (simp add: frame_onAnimationFrame)
  have b: "fst (onAnimationFrame env st) =
           (fst (frameBody env (st\<lparr> frame := frame st + 1 \<rparr>)))
             \<lparr> frame := frame st + 1 + 1, lastFrameTime := currentTime env \<rparr>"
    using assms(2) by (simp add: onAnimationFrame_def processed_def Let_def frame_frameBody)
  have c: "\<forall>v \<in> set (cadenceReads env (st\<lparr> frame := frame st + 1 \<rparr>)). odd v"
    using ev by (auto dest!: cadenceReads_frame)
  from a b c show ?thesis by blast
qed

theorem frame_counter_twice_and_odd_witness:
  "processed (idleFrame True 3) (fst (runFrames (map (idleFrame True) (stamps 2)) freshCamera)) \<and>
   frame (fst (runFrames (map (idleFrame True) (stamps 2)) freshCamera)) = 4 \<and>
   frame (fst (onAnimationFrame (idleFrame True 3)
      (fst (runFrames (map (idleFrame True) (stamps 2)) freshCamera)))) = 6 \<and>
   list_all odd (cadenceReads (idleFrame True 3)
       ((fst (runFrames (map (idleFrame True) (stamps 2)) freshCamera))
          \<lparr> frame := frame (fst (runFrames (map (idleFrame True) (stamps 2)) freshCamera)) + 1 \<rparr>))"
proof -
  have l: "lastFrameTime (fst (runFrames (map (idleFrame True) (stamps 2)) freshCamera)) = 2"
    by code_simp
  have f: "frame (fst (runFrames (map (idleFrame True) (stamps 2)) freshCamera)) = 4"
    by code_simp
  have p: "processed (idleFrame True 3) (fst (runFrames (map (idleFrame True) (stamps 2)) freshCamera))"
    by (simp add: processed_def l) (simp add: idleFrame_def)
  have st: "fst (runFrames (map (idleFrame True) (stamps 2)) freshCamera) =
            fst (runFrames (map (idleFrame True) (stamps 2)) (initialCamera False True True 300 150))"
    by (simp add: freshCamera_def)
  note t = frame_counter_twice_and_odd [OF st p]
  from t have a: "frame (fst (onAnimationFrame (idleFrame True 3)
      (fst (runFrames (map (idleFrame True) (stamps 2)) freshCamera)))) =
      frame (fst (runFrames (map (idleFrame True) (stamps 2)) freshCamera)) + 2"
    by blast
  from t have c: "list_all odd (cadenceReads (idleFrame True 3)
       ((fst (runFrames (map (idleFrame True) (stamps 2)) freshCamera))
          \<lparr> frame := frame (fst (runFrames (map (idleFrame True) (stamps 2)) freshCamera)) + 1 \<rparr>))"
    unfolding list_all_iff by blast
  from a f have "frame (fst (onAnimationFrame (idleFrame True 3)
      (fst (runFrames (map (idleFrame True) (stamps 2)) freshCamera)))) = 6"
    by simp
  with p f c show ?thesis by blast
qed

subsection \<open>Visibility of the main surfaces\<close>

text \<open>
  C8. After \<^verbatim>\<open>drawCameraFrame_\<close>, in each of the three modes and whatever was shown
  before, exactly one of the three wrappers is shown: the fast one in FAST mode, the
  preview one in NORMAL mode, the full quality one in BEST mode.
\<close>

theorem one_surface_visible:
  "visibleSurfaces (fst (drawCameraFrame mode st)) =
     [case mode of FAST \<Rightarrow> FastSurface | NORMAL \<Rightarrow> PreviewSurface | BEST \<Rightarrow> MainSurface] \<and>
   length (visibleSurfaces (fst (drawCameraFrame mode st))) = 1"
  by (cases mode) (simp_all add: drawCameraFrame_def visibleSurfaces_def Let_def)

theorem one_surface_visible_witness:
  "visibleSurfaces (fst (drawCameraFrame FAST (freshCamera\<lparr> mainCanvasHidden := False, mainPreviewCanvasHidden := False \<rparr>)))
     = [FastSurface]"
  using one_surface_visible [of FAST "freshCamera\<lparr> mainCanvasHidden := False, mainPreviewCanvasHidden := False \<rparr>"]
  by simp

subsection \<open>The detector\<close>

text \<open>
  C6. On a processed frame the tracker's \<^verbatim>\<open>update\<close> is called exactly once, whether or
  not a detection was requested; \<^verbatim>\<open>detect\<close> is called at most once, and never while
  the tracker reports \<^verbatim>\<open>busy\<close>.
\<close>

theorem detect_respects_busy_update_always:
  assumes "processed env st"
  shows "count_list (snd (onAnimationFrame env st)) TrackerUpdate = 1 \<and>
         count_list (snd (onAnimationFrame env st)) TrackerDetect \<le> 1 \<and>
         (trackerBusy env \<longrightarrow> TrackerDetect \<notin> set (snd (onAnimationFrame env st)))"
  using assms
  by (simp add: snd_onAnimationFrame count_frameBody_tracker count_list_0_iff [symmetric])

theorem detect_respects_busy_update_always_witness:
  "count_list (snd (onAnimationFrame
      ((idleFrame True 1)\<lparr> mainEffect := plainEffect\<lparr> usesHeadTracker := True \<rparr>, trackerBusy := True \<rparr>)
      freshCamera)) TrackerUpdate = 1 \<and>
   TrackerDetect \<notin> set (snd (onAnimationFrame
      ((idleFrame True 1)\<lparr> mainEffect := plainEffect\<lparr> usesHeadTracker := True \<rparr>, trackerBusy := True \<rparr>)
      freshCamera))"
proof -
  have p: "processed ((idleFrame True 1)\<lparr> mainEffect := plainEffect\<lparr> usesHeadTracker := True \<rparr>, trackerBusy := True \<rparr>) freshCamera"
    by (simp add: processed_def env_defs)
  show ?thesis
    using detect_respects_busy_update_always [OF p] by (simp add: env_defs)
qed

text \<open>
  With an effect that does not use the head tracker, a run of the frame loop from an
  even counter, as the constructor's is, never requests a detection, whatever the other
  flags are.
\<close>

lemma runFrames_never_detect:
  assumes "even (frame st)" and "\<forall>env \<in> set envs. \<not> usesHeadTracker (mainEffect env)"
  shows "TrackerDetect \<notin> set (snd (runFrames envs st))"
  using assms
proof (induction envs arbitrary: st)
  case Nil
  then show ?case by simp
next
  case (Cons env envs)
  have ev: "even (frame (fst (onAnimationFrame env st)))"
    using Cons.prems(1) by (simp add: frame_onAnimationFrame)
  have here: "TrackerDetect \<notin> set (snd (onAnimationFrame env st))"
    using Cons.prems by (intro no_detect_for_ribbon_only) simp_all
  show ?case
    using here Cons.IH [OF ev] Cons.prems(2) by (simp add: Let_def)
qed

text \<open>
  C5. A run of 30 consecutive new frames from the constructor's state, with the ribbon
  expanded, an idle tracker and an effect that does not use the head tracker: the
  tracker is updated on each of the 30 frames and \<^verbatim>\<open>detect\<close> is never called, because
  the counter is odd at every test of \<^verbatim>\<open>frame_ % 30\<close>.
\<close>

theorem ribbon_only_detection_never_requested:
  "count_list (snd (runFrames (map (idleFrame True) (stamps 30)) freshCamera)) TrackerUpdate = 30 \<and>
   count_list (snd (runFrames (map (idleFrame True) (stamps 30)) freshCamera)) TrackerDetect = 0"
  by code_simp

subsection \<open>Refresh of the fast path\<close>

text \<open>
  On a processed frame the fast texture is reloaded exactly when the counter, as the
  body reads it, is a multiple of 10 or the mode is FAST. In a run from an even counter
  the first never holds: the fast path is refreshed on FAST frames only.
\<close>

lemma fast_in_drawCameraFrame:
  "FastLoadContents \<in> set (snd (drawCameraFrame mode s)) \<longleftrightarrow> frame s mod 10 = 0 \<or> mode = FAST"
  by (cases mode) (auto simp add: drawCameraFrame_def Let_def)

lemma fast_in_frameBody:
  "FastLoadContents \<in> set (snd (frameBody env s)) \<longleftrightarrow>
   FastLoadContents \<in> set (snd (drawPhase env (fst (trackerPhase env s))))"
  using tracker_not_in_ribbonPhase(3) [of env "fst (drawPhase env (fst (trackerPhase env s)))"]
  by (auto simp add: frameBody_def Let_def resamplePhase_def trackerPhase_def)

lemma fast_refresh_iff:
  assumes "processed env st"
  shows "FastLoadContents \<in> set (snd (onAnimationFrame env st)) \<longleftrightarrow>
         (frame st + 1) mod 10 = 0 \<or> drawModes (snd (onAnimationFrame env st)) = [FAST]"
  using assms
  by (simp add: snd_onAnimationFrame fast_in_frameBody drawModes_frameBody drawPhase_def
      fast_in_drawCameraFrame drawModes_drawCameraFrame frame_trackerPhase)

lemma runFrames_never_fast:
  assumes "even (frame st)" and "FAST \<notin> set (drawModes (snd (runFrames envs st)))"
  shows "FastLoadContents \<notin> set (snd (runFrames envs st))"
  using assms
proof (induction envs arbitrary: st)
  case Nil
  then show ?case by simp
next
  case (Cons env envs)
  have ev: "even (frame (fst (onAnimationFrame env st)))"
    using Cons.prems(1) by (simp add: frame_onAnimationFrame)
  have nf: "FAST \<notin> set (drawModes (snd (onAnimationFrame env st)))"
    and nr: "FAST \<notin> set (drawModes (snd (runFrames envs (fst (onAnimationFrame env st)))))"
    using Cons.prems(2) by (simp_all add: Let_def drawModes_append)
  have here: "FastLoadContents \<notin> set (snd (onAnimationFrame env st))"
  proof (cases "processed env st")
    case True
    have "odd (frame st + 1)" using Cons.prems(1) by simp
    then have "(frame st + 1) mod 10 \<noteq> 0" by presburger
    moreover have "drawModes (snd (onAnimationFrame env st)) \<noteq> [FAST]" using nf by auto
    ultimately show ?thesis using fast_refresh_iff [OF True] by simp
  next
    case False
    then show ?thesis by (auto simp add: onAnimationFrame_def processed_def)
  qed
  show ?case
    using here Cons.IH [OF ev nr] by (simp add: Let_def)
qed

text \<open>
  C4. A run of 20 consecutive new frames from the constructor's state, all drawn in NORMAL
  mode: the fast texture is never reloaded and the fast processor never runs, because
  the counter is odd at every test of \<^verbatim>\<open>frame_ % 10\<close>.
\<close>

theorem fast_path_never_refreshed:
  "drawModes (snd (runFrames (map (idleFrame False) (stamps 20)) freshCamera)) = replicate 20 NORMAL \<and>
   count_list (snd (runFrames (map (idleFrame False) (stamps 20)) freshCamera)) FastLoadContents = 0 \<and>
   count_list (snd (runFrames (map (idleFrame False) (stamps 20)) freshCamera)) FastProcessFrame = 0"
  by code_simp

subsection \<open>Round robin over the previews that are not drawn\<close>

lemma hit_offset_aux:
  fixes x y r K :: nat
  assumes "x < K" "y < K" "r < K"
  shows "(x + y) mod K = r \<longleftrightarrow> y = (r + K - x) mod K"
proof (cases "x + y < K")
  case True
  then show ?thesis using assms by (auto simp add: mod_if)
next
  case False
  then have "(x + y) mod K = x + y - K" using assms by (simp add: mod_if)
  then show ?thesis using assms False by (auto simp add: mod_if)
qed

lemma hit_offset:
  fixes a K r :: nat
  assumes "r < K"
  shows "(a + j) mod K = r \<longleftrightarrow> j mod K = (r + K - a mod K) mod K"
proof -
  have K: "0 < K" using assms by simp
  have "(a + j) mod K = (a mod K + j mod K) mod K" by (simp add: mod_add_eq)
  then show ?thesis
    using hit_offset_aux [of "a mod K" K "j mod K" r] assms K by simp
qed

lemma ceil_div:
  fixes N K :: nat
  assumes "0 < K"
  shows "(N + K - 1) div K = N div K + (if N mod K = 0 then 0 else 1)"
proof (rule div_nat_eqI)
  have N: "N = K * (N div K) + N mod K" by simp
  have m: "N mod K < K" using assms by simp
  show "K * (N div K + (if N mod K = 0 then 0 else 1)) \<le> N + K - 1"
  proof (cases "N mod K = 0")
    case True
    then have "K * (N div K) = N" using N by simp
    then show ?thesis using True assms by simp
  next
    case False
    then have "K * (N div K) + K \<le> N + K - 1" using N by linarith
    then show ?thesis using False by (simp add: algebra_simps)
  qed
  show "N + K - 1 < K * Suc (N div K + (if N mod K = 0 then 0 else 1))"
  proof (cases "N mod K = 0")
    case True
    then have "K * (N div K) = N" using N by simp
    then show ?thesis using True assms by simp
  next
    case False
    have "N < K * (N div K) + K" using N m by linarith
    then show ?thesis using False by (simp add: algebra_simps)
  qed
qed

lemma count_residue:
  fixes d K :: nat
  assumes "d < K"
  shows "length (filter (\<lambda>j. j mod K = d) [0..<N]) =
         N div K + (if d < N mod K then 1 else 0)"
proof (induction N)
  case 0
  then show ?case by simp
next
  case (Suc N)
  then show ?case
    using assms by (auto simp add: mod_Suc div_Suc)
qed

lemma count_hits:
  fixes a K r :: nat
  assumes "r < K"
  shows "length (filter (\<lambda>j. (a + j) mod K = r) [0..<N]) =
         N div K + (if (r + K - a mod K) mod K < N mod K then 1 else 0)"
proof -
  have "(r + K - a mod K) mod K < K" using assms by simp
  from count_residue [OF this, of N] show ?thesis
    using assms by (simp add: hit_offset)
qed

lemma count_hits_floor_or_ceil:
  fixes a K r :: nat
  assumes "r < K"
  shows "length (filter (\<lambda>j. (a + j) mod K = r) [0..<N]) = N div K \<or>
         length (filter (\<lambda>j. (a + j) mod K = r) [0..<N]) = (N + K - 1) div K"
proof -
  have K: "0 < K" using assms by simp
  show ?thesis
    unfolding count_hits [OF assms] ceil_div [OF K] by auto
qed

lemma ribbonLoop_notDrawn_ge:
  "x \<in> set (snd (ribbonLoop mode width rs index)) \<Longrightarrow> index \<le> x"
  by (induction rs arbitrary: index) (fastforce simp add: Let_def split: if_splits)+

lemma ribbonLoop_drawn_ge:
  "EffectProcessFrame x \<in> set (fst (ribbonLoop mode width rs index)) \<Longrightarrow> index \<le> x"
  by (induction rs arbitrary: index) (fastforce simp add: Let_def split: if_splits)+

lemma ribbonLoop_distinct: "distinct (snd (ribbonLoop mode width rs index))"
proof (induction rs arbitrary: index)
  case Nil
  then show ?case by simp
next
  case (Cons r rs)
  have "index \<notin> set (snd (ribbonLoop mode width rs (Suc index)))"
    using ribbonLoop_notDrawn_ge [of index mode width rs "Suc index"] by auto
  then show ?case using Cons by (auto simp add: Let_def)
qed

lemma ribbonLoop_disjoint:
  "x \<in> set (snd (ribbonLoop mode width rs index)) \<Longrightarrow>
   EffectProcessFrame x \<notin> set (fst (ribbonLoop mode width rs index))"
proof (induction rs arbitrary: index)
  case Nil
  then show ?case by simp
next
  case (Cons r rs)
  have a: "index \<notin> set (snd (ribbonLoop mode width rs (Suc index)))"
    using ribbonLoop_notDrawn_ge [of index mode width rs "Suc index"] by auto
  have b: "EffectProcessFrame index \<notin> set (fst (ribbonLoop mode width rs (Suc index)))"
    using ribbonLoop_drawn_ge [of index mode width rs "Suc index"] by auto
  show ?case using Cons a b by (auto simp add: Let_def split: if_splits)
qed

lemma count_drawEffectsRibbon:
  assumes "notDrawnIn mode env = nd" and "nd \<noteq> []" and "p \<in> set nd"
  shows "count_list (snd (drawEffectsRibbon mode env st)) (EffectProcessFrame p) =
         (if nd ! ((staleEffectsRefreshIndex st + 1) mod length nd) = p then 1 else 0)"
proof -
  have "EffectProcessFrame p \<notin> set (fst (ribbonLoop mode (bodyOffsetWidth env) (effectRects env) 0))"
    using assms ribbonLoop_disjoint [of p mode "bodyOffsetWidth env" "effectRects env" 0]
    by (simp add: notDrawnIn_def)
  then have "count_list (fst (ribbonLoop mode (bodyOffsetWidth env) (effectRects env) 0))
               (EffectProcessFrame p) = 0"
    by (simp add: count_list_0_iff)
  then show ?thesis
    using assms by (auto simp add: drawEffectsRibbon_def Let_def notDrawnIn_def)
qed

lemma index_drawEffectsRibbon:
  "staleEffectsRefreshIndex (fst (drawEffectsRibbon mode env st)) = staleEffectsRefreshIndex st + 1"
  by (simp add: drawEffectsRibbon_def Let_def)

lemma filter_upt_Suc_shift:
  "length (filter P [0..<Suc n]) = (if P 0 then 1 else 0) + length (filter (\<lambda>j. P (Suc j)) [0..<n])"
proof -
  have "[0..<Suc n] = 0 # map Suc [0..<n]"
    by (simp add: upt_conv_Cons map_Suc_upt del: upt_Suc)
  then show ?thesis by (simp add: filter_map comp_def del: upt_Suc)
qed

lemma count_runRibbon:
  assumes "\<forall>env \<in> set envs. notDrawnIn mode env = nd" and "nd \<noteq> []" and "p \<in> set nd"
  shows "count_list (snd (runRibbon mode envs st)) (EffectProcessFrame p) =
         length (filter (\<lambda>j. nd ! ((staleEffectsRefreshIndex st + 1 + j) mod length nd) = p)
                   [0..<length envs])"
  using assms(1)
proof (induction envs arbitrary: st)
  case Nil
  then show ?case by simp
next
  case (Cons env envs)
  have one: "count_list (snd (drawEffectsRibbon mode env st)) (EffectProcessFrame p) =
         (if nd ! ((staleEffectsRefreshIndex st + 1) mod length nd) = p then 1 else 0)"
    using Cons.prems assms(2,3) by (intro count_drawEffectsRibbon) simp_all
  have rest: "count_list (snd (runRibbon mode envs (fst (drawEffectsRibbon mode env st))))
                (EffectProcessFrame p) =
         length (filter (\<lambda>j. nd ! ((staleEffectsRefreshIndex st + 1 + Suc j) mod length nd) = p)
                   [0..<length envs])"
    using Cons.IH [of "fst (drawEffectsRibbon mode env st)"] Cons.prems
    by (simp add: index_drawEffectsRibbon)
  show ?case
    using one rest
    by (simp add: Let_def filter_upt_Suc_shift del: upt_Suc)
qed


text \<open>
  Back-to-back invocations of \<^verbatim>\<open>drawEffectsRibbon_\<close> in NORMAL mode: over \<open>N\<close> of them
  with the same list \<^verbatim>\<open>notDrawn\<close> of length \<open>K \<ge> 1\<close>, from any value of the refresh index,
  each processor of that list is drawn \<open>\<lfloor>N / K\<rfloor>\<close> or \<open>\<lceil>N / K\<rceil>\<close> times.
\<close>

lemma runRibbon_fair:
  assumes "\<forall>env \<in> set envs. notDrawnIn NORMAL env = nd" and "nd \<noteq> []" and "p \<in> set nd"
  shows "count_list (snd (runRibbon NORMAL envs st)) (EffectProcessFrame p) =
           length envs div length nd \<or>
         count_list (snd (runRibbon NORMAL envs st)) (EffectProcessFrame p) =
           (length envs + length nd - 1) div length nd"
proof (cases envs)
  case Nil
  then show ?thesis by simp
next
  case (Cons e es)
  then have d: "distinct nd"
    using assms(1) ribbonLoop_distinct by (auto simp add: notDrawnIn_def)
  obtain r where r: "r < length nd" "nd ! r = p"
    using assms(3) by (auto simp add: in_set_conv_nth)
  have K: "0 < length nd" using assms(2) by simp
  have eq: "(nd ! x = p) = (x = r)" if "x < length nd" for x
    using nth_eq_iff_index_eq [OF d that r(1)] r(2) by simp
  have "(\<lambda>j. nd ! ((staleEffectsRefreshIndex st + 1 + j) mod length nd) = p) =
        (\<lambda>j. (staleEffectsRefreshIndex st + 1 + j) mod length nd = r)"
    by (rule ext) (rule eq, rule mod_less_divisor [OF K])
  then have "count_list (snd (runRibbon NORMAL envs st)) (EffectProcessFrame p) =
         length (filter (\<lambda>j. (staleEffectsRefreshIndex st + 1 + j) mod length nd = r)
                   [0..<length envs])"
    unfolding count_runRibbon [OF assms, of st] by (rule arg_cong)
  then show ?thesis
    using count_hits_floor_or_ceil [OF r(1), of "staleEffectsRefreshIndex st + 1" "length envs"]
    by (simp only:)
qed


















subsection \<open>Size of the tracker's input\<close>

lemma trackerInputs_append: "trackerInputs (xs @ ys) = trackerInputs xs @ trackerInputs ys"
  by (induction xs rule: trackerInputs.induct) simp_all

lemma trackerInputs_none:
  "set cs \<subseteq> - range (\<lambda>(w, h). DrawTrackerInput w h) \<Longrightarrow> trackerInputs cs = []"
  by (induction cs rule: trackerInputs.induct) auto

lemma trackerInputs_ribbonPhase: "trackerInputs (snd (ribbonPhase env st)) = []"
  using set_ribbonPhase [of env st] by (intro trackerInputs_none) auto

lemma trackerInputs_drawPhase: "trackerInputs (snd (drawPhase env st)) = []"
  using set_drawCameraFrame [of BEST st] set_drawCameraFrame [of FAST st]
    set_drawCameraFrame [of NORMAL st]
  by (intro trackerInputs_none) (auto simp add: drawPhase_def)

lemma trackerInputs_resamplePhase: "trackerInputs (resamplePhase st) = []"
  by (simp add: resamplePhase_def)

lemma trackerInputs_frameBody:
  "trackerInputs (snd (frameBody env st)) = trackerInputs (snd (trackerPhase env st))"
  by (simp add: frameBody_def Let_def trackerInputs_append trackerInputs_ribbonPhase
      trackerInputs_drawPhase trackerInputs_resamplePhase)

lemma Math_round_values:
  "Math_round (3 / 4 * 90) = 68" "Math_round (3 / 4 * 120) = 90" "Math_round (3 / 4 * 160) = 120"
  "Math_round 90 = 90" "Math_round 120 = 120" "Math_round 160 = 160"
  by (simp_all add: Math_round_def floor_eq_iff)

lemma trackerInputs_trackerPhase:
  "trackerInputs (snd (trackerPhase env st)) =
     (if \<not> trackerBusy env \<and> requestHeadTrackerUpdate env st
      then [if usesHeadTracker (mainEffect env)
            then (if 2 * videoWidth env < 3 * videoHeight env then 120 else 160, 90)
            else (Math_round (3 / 4 * (if 2 * videoWidth env < 3 * videoHeight env then 120 else 160)),
                  Math_round (3 / 4 * 90))]
      else [])"
  by (simp add: trackerPhase_def setHeadTrackerQuality_def qualityScale_def Let_def Math_round_values)


lemma detect_in_frameBody:
  "TrackerDetect \<in> set (snd (frameBody env st)) \<Longrightarrow>
   \<not> trackerBusy env \<and> requestHeadTrackerUpdate env st"
  using set_ribbonPhase [of env "fst (drawPhase env (fst (trackerPhase env st)))"]
    set_drawCameraFrame [of BEST "fst (trackerPhase env st)"]
    set_drawCameraFrame [of FAST "fst (trackerPhase env st)"]
    set_drawCameraFrame [of NORMAL "fst (trackerPhase env st)"]
  by (auto simp add: frameBody_def Let_def resamplePhase_def trackerPhase_def drawPhase_def
      split: if_splits)

text \<open>
  C9, as the code has it. On a processed frame that requests a detection, the video is
  drawn into the tracker's input canvas once: at 160x90 (120x90 for a video narrower than
  3:2) when the current effect uses the head tracker, and at that size scaled by 0.75 and
  rounded, 120x68 (90x68), when it does not.
\<close>

theorem tracker_input_quality:
  assumes "processed env st" and "TrackerDetect \<in> set (snd (onAnimationFrame env st))"
  shows "trackerInputs (snd (onAnimationFrame env st)) =
     [if usesHeadTracker (mainEffect env)
      then (if 2 * videoWidth env < 3 * videoHeight env then 120 else 160, 90)
      else (Math_round (3 / 4 * (if 2 * videoWidth env < 3 * videoHeight env then 120 else 160)),
            Math_round (3 / 4 * 90))]"
proof -
  have "\<not> trackerBusy env \<and> requestHeadTrackerUpdate env (st\<lparr> frame := frame st + 1 \<rparr>)"
    using assms by (intro detect_in_frameBody) (simp add: snd_onAnimationFrame)
  then show ?thesis
    using assms(1)
    by (simp add: snd_onAnimationFrame trackerInputs_frameBody trackerInputs_trackerPhase)
qed

theorem tracker_input_quality_witness:
  "trackerInputs (snd (onAnimationFrame
      ((idleFrame True 1)\<lparr> mainEffect := plainEffect\<lparr> usesHeadTracker := True \<rparr> \<rparr>) freshCamera))
     = [(160, 90)] \<and>
   trackerInputs (snd (onAnimationFrame (idleFrame True 1) (freshCamera\<lparr> frame := 29 \<rparr>)))
     = [(120, 68)]"
proof -
  have p: "processed ((idleFrame True 1)\<lparr> mainEffect := plainEffect\<lparr> usesHeadTracker := True \<rparr> \<rparr>) freshCamera"
    "processed (idleFrame True 1) (freshCamera\<lparr> frame := 29 \<rparr>)"
    by (simp_all add: processed_def env_defs)
  have d: "TrackerDetect \<in> set (snd (onAnimationFrame
      ((idleFrame True 1)\<lparr> mainEffect := plainEffect\<lparr> usesHeadTracker := True \<rparr> \<rparr>) freshCamera))"
    "TrackerDetect \<in> set (snd (onAnimationFrame (idleFrame True 1) (freshCamera\<lparr> frame := 29 \<rparr>)))"
    by code_simp+
  show ?thesis
    using tracker_input_quality [OF p(1) d(1)] tracker_input_quality [OF p(2) d(2)]
    by (simp add: env_defs Math_round_def floor_eq_iff)
qed

text \<open>
  C9, as stated, fails: for a 1280x720 video the low quality canvas is 120x68, not the
  normal quality canvas 160x90 scaled by 0.5 and rounded (80x45).
\<close>

theorem low_quality_not_half_counterexample:
  "trackerInputCanvasWidth (setHeadTrackerQuality QUALITY_LOW (idleFrame True 1) freshCamera) \<noteq>
     Math_round (1 / 2 * of_int
       (trackerInputCanvasWidth (setHeadTrackerQuality QUALITY_NORMAL (idleFrame True 1) freshCamera))) \<and>
   trackerInputCanvasHeight (setHeadTrackerQuality QUALITY_LOW (idleFrame True 1) freshCamera) \<noteq>
     Math_round (1 / 2 * of_int
       (trackerInputCanvasHeight (setHeadTrackerQuality QUALITY_NORMAL (idleFrame True 1) freshCamera))) \<and>
   trackerInputCanvasWidth (setHeadTrackerQuality QUALITY_LOW (idleFrame True 1) freshCamera) = 120 \<and>
   trackerInputCanvasHeight (setHeadTrackerQuality QUALITY_LOW (idleFrame True 1) freshCamera) = 68 \<and>
   trackerInputCanvasWidth (setHeadTrackerQuality QUALITY_NORMAL (idleFrame True 1) freshCamera) = 160 \<and>
   trackerInputCanvasHeight (setHeadTrackerQuality QUALITY_NORMAL (idleFrame True 1) freshCamera) = 90"
proof -
  have n: "trackerInputCanvasWidth (setHeadTrackerQuality QUALITY_LOW (idleFrame True 1) freshCamera) = 120"
    "trackerInputCanvasHeight (setHeadTrackerQuality QUALITY_LOW (idleFrame True 1) freshCamera) = 68"
    "trackerInputCanvasWidth (setHeadTrackerQuality QUALITY_NORMAL (idleFrame True 1) freshCamera) = 160"
    "trackerInputCanvasHeight (setHeadTrackerQuality QUALITY_NORMAL (idleFrame True 1) freshCamera) = 90"
    by (simp_all add: setHeadTrackerQuality_def qualityScale_def env_defs Math_round_def floor_eq_iff)
  have h: "Math_round (1 / 2 * of_int 160) = 80" "Math_round (1 / 2 * of_int 90) = 45"
    by (simp_all add: Math_round_def floor_eq_iff)
  show ?thesis unfolding n h by simp
qed

subsection \<open>The performance monitor\<close>

lemma discardIndex_takeWhile:
  "discardIndex threshold ps = length (takeWhile (\<lambda>p. fst p < threshold) ps)"
  by (induction ps) simp_all

lemma drop_discardIndex:
  "drop (discardIndex threshold ps) ps = dropWhile (\<lambda>p. fst p < threshold) ps"
  by (simp add: discardIndex_takeWhile dropWhile_eq_drop)

lemma dropWhile_sorted_filter:
  "sorted (map fst ps) \<Longrightarrow>
   dropWhile (\<lambda>p. fst p < threshold) ps = filter (\<lambda>p. threshold \<le> fst p) (ps :: (rat \<times> rat) list)"
proof (induction ps)
  case Nil
  then show ?case by simp
next
  case (Cons p ps)
  show ?case
  proof (cases "fst p < threshold")
    case True
    then show ?thesis using Cons by simp
  next
    case False
    then have "\<forall>q \<in> set ps. threshold \<le> fst q" using Cons.prems by fastforce
    then have "filter (\<lambda>p. threshold \<le> fst p) ps = ps" by (simp add: filter_id_conv)
    then show ?thesis using False by simp
  qed
qed

lemma nth_discardIndex:
  "discardIndex threshold ps < length ps \<Longrightarrow>
   ps ! discardIndex threshold ps = hd (dropWhile (\<lambda>p. fst p < threshold) ps)"
  by (simp add: discardIndex_takeWhile hd_dropWhile hd_drop_conv_nth dropWhile_eq_drop)

lemma finishMeasuring_Inr:
  assumes "finishMeasuring c m = Inr m'" and "sorted (map fst (probes m))"
    and "\<forall>p \<in> set (probes m). fst p \<le> nowStamp c"
  shows "probes m' = filter (\<lambda>p. nowThreshold c - HISTORY_LENGTH \<le> fst p) (probes m @ [probeOf c])"
    and "probes m' \<noteq> []"
    and "tailStartTime m' =
           (if length (probes m') < length (probes m) + 1 then fst (hd (probes m')) else tailStartTime m)"
proof -
  let ?ps = "probes m @ [probeOf c]"
  let ?th = "nowThreshold c - HISTORY_LENGTH"
  let ?i = "discardIndex ?th ?ps"
  have s: "sorted (map fst ?ps)"
    using assms(2,3) by (auto simp add: sorted_append probeOf_def)
  have d: "drop ?i ?ps = filter (\<lambda>p. ?th \<le> fst p) ?ps"
    using s by (simp only: drop_discardIndex dropWhile_sorted_filter)
  have i: "?i < length ?ps \<or> ?i = 0"
    using assms(1) by (auto simp add: finishMeasuring_def Let_def split: if_splits)
  have pr: "probes m' = drop ?i ?ps"
    using assms(1) by (auto simp add: finishMeasuring_def Let_def split: if_splits)
  show "probes m' = filter (\<lambda>p. ?th \<le> fst p) ?ps"
    using pr d by simp
  show ne: "probes m' \<noteq> []"
    using pr i by auto
  have len: "length (probes m') = length ?ps - ?i" using pr by simp
  show "tailStartTime m' =
           (if length (probes m') < length (probes m) + 1 then fst (hd (probes m')) else tailStartTime m)"
  proof (cases "?i > 0")
    case True
    then have lt: "?i < length ?ps" using i by auto
    have "tailStartTime m' = fst (?ps ! ?i)"
      using assms(1) True lt by (auto simp add: finishMeasuring_def Let_def split: if_splits)
    also have "?ps ! ?i = hd (drop ?i ?ps)"
      by (rule hd_drop_conv_nth [OF lt, symmetric])
    finally show ?thesis using pr len True lt by simp
  next
    case False
    then have "tailStartTime m' = tailStartTime m"
      using assms(1) by (auto simp add: finishMeasuring_def Let_def split: if_splits)
    then show ?thesis using len False by simp
  qed
qed

lemma discardIndex_snoc:
  "\<not> fst x < threshold \<Longrightarrow> discardIndex threshold (ps @ [x]) < length (ps @ [x])"
  by (induction ps) simp_all

lemma finishMeasuring_total:
  assumes "nowThreshold c - HISTORY_LENGTH \<le> nowStamp c"
  shows "\<exists>m'. finishMeasuring c m = Inr m'"
proof -
  have "\<not> fst (probeOf c) < nowThreshold c - HISTORY_LENGTH"
    using assms by (simp add: probeOf_def)
  from discardIndex_snoc [OF this, of "probes m"] show ?thesis
    by (simp add: finishMeasuring_def Let_def)
qed


lemma clockOrdered_last:
  "clockOrdered t cs \<Longrightarrow> cs \<noteq> [] \<Longrightarrow> t \<le> nowThreshold (last cs)"
proof (induction cs arbitrary: t)
  case Nil
  then show ?case by simp
next
  case (Cons c cs)
  show ?case
  proof (cases "cs = []")
    case True
    then show ?thesis using Cons.prems by simp
  next
    case False
    then have "nowThreshold c \<le> nowThreshold (last cs)"
      using Cons.IH [of "nowThreshold c"] Cons.prems by simp
    then show ?thesis using Cons.prems False by simp
  qed
qed

lemma filter_full_length: "length (filter P xs) = length xs \<Longrightarrow> filter P xs = xs"
  by (metis filter_id_conv length_filter_less less_irrefl)

lemma filter_filter_weaker:
  "(\<And>x. P x \<Longrightarrow> Q x) \<Longrightarrow> filter P (filter Q xs) = filter P xs"
  by (induction xs) auto

lemma runCompletions_Inr:
  assumes "runCompletions cs m0 = Inr m" and "sorted (map fst (probes m0))"
    and "\<forall>p \<in> set (probes m0). fst p \<le> t" and "clockOrdered t cs" and "cs \<noteq> []"
  shows "probes m = filter (\<lambda>p. nowThreshold (last cs) - HISTORY_LENGTH \<le> fst p)
                      (probes m0 @ map probeOf cs) \<and>
         probes m \<noteq> [] \<and>
         tailStartTime m =
           (if length (probes m) < length (probes m0) + length cs
            then fst (hd (probes m)) else tailStartTime m0)"
  using assms
proof (induction cs arbitrary: m0 t)
  case Nil
  then show ?case by simp
next
  case (Cons c cs)
  from Cons.prems(1) obtain m1 where m1: "finishMeasuring c m0 = Inr m1"
    and run: "runCompletions cs m1 = Inr m"
    by (auto split: sum.splits)
  have le: "\<forall>p \<in> set (probes m0). fst p \<le> nowStamp c"
    using Cons.prems(3,4) by fastforce
  note step = finishMeasuring_Inr [OF m1 Cons.prems(2) le]
  show ?case
  proof (cases "cs = []")
    case True
    then have "m = m1" using run by simp
    then show ?thesis using step True by simp
  next
    case False
    have s1: "sorted (map fst (probes m1))"
      unfolding step(1) using Cons.prems(2) le
      by (intro sorted_filter) (auto simp add: sorted_append probeOf_def)
    have sc: "nowStamp c \<le> nowThreshold c" using Cons.prems(4) by simp
    have b1: "\<forall>p \<in> set (probes m1). fst p \<le> nowThreshold c"
    proof
      fix p assume "p \<in> set (probes m1)"
      then have "p \<in> set (probes m0) \<or> p = probeOf c" unfolding step(1) by (auto split: if_splits)
      then have "fst p \<le> nowStamp c" using le by (auto simp add: probeOf_def)
      then show "fst p \<le> nowThreshold c" using sc by simp
    qed
    have c1: "clockOrdered (nowThreshold c) cs" using Cons.prems(4) by simp
    note ih = Cons.IH [OF run s1 b1 c1 False]
    let ?L = "nowThreshold (last cs) - HISTORY_LENGTH"
    let ?C = "nowThreshold c - HISTORY_LENGTH"
    have mono: "?C \<le> ?L" using clockOrdered_last [OF c1 False] by simp
    have ih1: "probes m = filter (\<lambda>p. ?L \<le> fst p) (probes m1 @ map probeOf cs)"
      using ih by blast
    have "filter (\<lambda>p. ?L \<le> fst p) (probes m1) =
          filter (\<lambda>p. ?L \<le> fst p) (probes m0 @ [probeOf c])"
      unfolding step(1) using mono by (intro filter_filter_weaker) simp
    then have p: "probes m = filter (\<lambda>p. ?L \<le> fst p) (probes m0 @ map probeOf (c # cs))"
      using ih1 by simp
    have ne: "probes m \<noteq> []" using ih by blast
    have "length (probes m1) \<le> length (probes m0 @ [probeOf c])"
      unfolding step(1) by (rule length_filter_le)
    then have n1: "length (probes m1) \<le> length (probes m0) + 1" by simp
    have "length (probes m) \<le> length (probes m1 @ map probeOf cs)"
      unfolding ih1 by (rule length_filter_le)
    then have n: "length (probes m) \<le> length (probes m1) + length cs" by simp
    have tail: "tailStartTime m =
           (if length (probes m) < length (probes m0) + length (c # cs)
            then fst (hd (probes m)) else tailStartTime m0)"
    proof (cases "length (probes m) < length (probes m1) + length cs")
      case True
      moreover have "tailStartTime m =
           (if length (probes m) < length (probes m1) + length cs
            then fst (hd (probes m)) else tailStartTime m1)" using ih by blast
      ultimately show ?thesis using n1 by simp
    next
      case full: False
      moreover have "tailStartTime m =
           (if length (probes m) < length (probes m1) + length cs
            then fst (hd (probes m)) else tailStartTime m1)" using ih by blast
      ultimately have tm: "tailStartTime m = tailStartTime m1" by simp
      have "length (probes m) = length (probes m1 @ map probeOf cs)" using full n by simp
      then have "probes m = probes m1 @ map probeOf cs"
        unfolding ih1 by (rule filter_full_length)
      then have hd: "hd (probes m) = hd (probes m1)" using step(2) by simp
      show ?thesis
      proof (cases "length (probes m1) < length (probes m0) + 1")
        case True
        then show ?thesis using tm step(3) hd full n by simp
      next
        case False
        then show ?thesis using tm step(3) full n n1 by simp
      qed
    qed
    show ?thesis using p ne tail False by simp
  qed
qed

lemma runCompletions_total:
  "prompt cs \<Longrightarrow> \<exists>m'. runCompletions cs m = Inr m'"
proof (induction cs arbitrary: m)
  case Nil
  then show ?case by simp
next
  case (Cons c cs)
  then obtain m1 where "finishMeasuring c m = Inr m1"
    using finishMeasuring_total [of c m] by auto
  then show ?case using Cons by simp
qed

lemmas monitor_defs = newPerformanceMonitor_def finishMeasuring_def instant_def probeOf_def
  HISTORY_LENGTH_def Let_def

text \<open>
  C2, as the code has it. Take a monitor created at \<open>t0\<close> and any non-empty sequence of
  completions whose clock readings do not run backwards, each completion taking no
  longer than the history. No completion throws. Afterwards the monitor retains exactly
  the probes whose time stamp is not older than the last threshold reading minus
  \<^verbatim>\<open>HISTORY_LENGTH\<close>, at least one; the window start is the time stamp of the oldest retained
  probe once a probe has been discarded, and the creation time \<open>t0\<close> before that; and a
  query at time \<open>now\<close> returns 1000 times the number of retained probes divided by
  \<open>now\<close> minus the window start (0 when the window start is 0). The horizon is not a
  divisor.
\<close>

theorem fps_after_completions:
  assumes "clockOrdered t0 cs" and "prompt cs" and "cs \<noteq> []"
  shows "\<exists>m. runCompletions cs (newPerformanceMonitor t0) = Inr m \<and>
           probes m = filter (\<lambda>p. nowThreshold (last cs) - HISTORY_LENGTH \<le> fst p)
                        (map probeOf cs) \<and>
           probes m \<noteq> [] \<and>
           tailStartTime m =
             (if length (probes m) < length cs then fst (hd (probes m)) else t0) \<and>
           (\<forall>now. fps now m =
             (if tailStartTime m \<noteq> 0
              then perSecond (length (probes m)) (now - tailStartTime m)
              else Finite 0))"
proof -
  obtain m where m: "runCompletions cs (newPerformanceMonitor t0) = Inr m"
    using runCompletions_total [OF assms(2)] by blast
  have e: "probes (newPerformanceMonitor t0) = []" "tailStartTime (newPerformanceMonitor t0) = t0"
    by (simp_all add: newPerformanceMonitor_def)
  have "sorted (map fst (probes (newPerformanceMonitor t0)))"
    and "\<forall>p \<in> set (probes (newPerformanceMonitor t0)). fst p \<le> t0"
    by (simp_all add: e)
  from runCompletions_Inr [OF m this assms(1,3)]
  have "probes m = filter (\<lambda>p. nowThreshold (last cs) - HISTORY_LENGTH \<le> fst p)
                        (map probeOf cs) \<and>
        probes m \<noteq> [] \<and>
        tailStartTime m =
             (if length (probes m) < length cs then fst (hd (probes m)) else t0)"
    unfolding e append_Nil list.size(3) add_0 .
  moreover have "\<forall>now. fps now m =
             (if tailStartTime m \<noteq> 0
              then perSecond (length (probes m)) (now - tailStartTime m)
              else Finite 0)"
    by (simp add: fps_def)
  ultimately show ?thesis using m by blast
qed

theorem fps_after_completions_witness:
  "runCompletions (map instant [1500, 2000, 5000]) (newPerformanceMonitor 1000) =
     Inr \<lparr> probes = [(2000, 4), (5000, 4)], tailStartTime = 2000 \<rparr> \<and>
   fps 6000 \<lparr> probes = [(2000, 4), (5000, 4)], tailStartTime = 2000 \<rparr> = Finite (1 / 2)"
proof -
  have h: "clockOrdered 1000 (map instant [1500, 2000, 5000])" "prompt (map instant [1500, 2000, 5000])"
    "map instant [1500, 2000, 5000] \<noteq> []"
    by (simp_all add: instant_def HISTORY_LENGTH_def)
  have r: "runCompletions (map instant [1500, 2000, 5000]) (newPerformanceMonitor 1000) =
     Inr \<lparr> probes = [(2000, 4), (5000, 4)], tailStartTime = 2000 \<rparr>"
    by (simp add: monitor_defs)
  from fps_after_completions [OF h] obtain m where
    m: "runCompletions (map instant [1500, 2000, 5000]) (newPerformanceMonitor 1000) = Inr m"
    and f: "\<forall>now. fps now m =
             (if tailStartTime m \<noteq> 0
              then perSecond (length (probes m)) (now - tailStartTime m)
              else Finite 0)"
    by blast
  have "m = \<lparr> probes = [(2000, 4), (5000, 4)], tailStartTime = 2000 \<rparr>"
    using m r by simp
  then show ?thesis using r f by (simp add: perSecond_def)
qed

text \<open>
  C2, as stated, fails: a monitor created at 1000 ms, completions at 2000, 3024 and 6000 ms
  (the last one discards the probe of 2000), queried at 7120 ms. The query returns
  \<open>2 / (7120 - 3024) * 1000\<close>, which is neither the count over the time between the
  oldest retained and the latest probe, \<open>2 / (6000 - 3024)\<close>, nor 1000 times that.
\<close>

theorem fps_elapsed_counterexample:
  "runCompletions (map instant [2000, 3024, 6000]) (newPerformanceMonitor 1000) =
     Inr \<lparr> probes = [(3024, 4), (6000, 4)], tailStartTime = 3024 \<rparr> \<and>
   fps 7120 \<lparr> probes = [(3024, 4), (6000, 4)], tailStartTime = 3024 \<rparr> = Finite (125 / 256) \<and>
   fps 7120 \<lparr> probes = [(3024, 4), (6000, 4)], tailStartTime = 3024 \<rparr> \<noteq>
     Finite (2 / (6000 - 3024)) \<and>
   fps 7120 \<lparr> probes = [(3024, 4), (6000, 4)], tailStartTime = 3024 \<rparr> \<noteq>
     Finite (2 / (6000 - 3024) * 1000)"
  by (simp add: monitor_defs fps_def perSecond_def)

subsection \<open>Negotiating the resolution\<close>

lemma attempted_append: "attempted (xs @ ys) = attempted xs @ attempted ys"
  by (induction xs rule: attempted.induct) simp_all

lemma reported_append: "reported (xs @ ys) = reported xs @ reported ys"
  by (induction xs rule: reported.induct) simp_all

lemma stop_observed:
  "attempted (calls (stop st)) = attempted (calls st)"
  "reported (calls (stop st)) = reported (calls st)"
  "retryStartTimer (stop st) = retryStartTimer st"
  "\<not> running (stop st)"
  by (simp_all add: stop_def Let_def clearTimer_def attempted_append reported_append
      split: option.splits)

lemma singleSlot_stop: "singleSlot st \<Longrightarrow> singleSlot (stop st)"
  by (auto simp add: stop_def Let_def clearTimer_def singleSlot_def list_all_iff
      split: option.splits)

lemma startWithResolution_observed:
  "attempted (calls (startWithResolution r st)) = attempted (calls st) @ [r]"
  "reported (calls (startWithResolution r st)) = reported (calls st)"
  "retryStartTimer (startWithResolution r st) = retryStartTimer st"
  "\<not> running (startWithResolution r st)"
  by (simp_all add: startWithResolution_def Let_def stop_observed attempted_append reported_append)

lemma singleSlot_startWithResolution: "singleSlot st \<Longrightarrow> singleSlot (startWithResolution r st)"
  using singleSlot_stop [of st]
  by (auto simp add: startWithResolution_def Let_def singleSlot_def)

lemma zeroTimeout_observed:
  "attempted (calls (zeroTimeout st)) = attempted (calls st)"
  "reported (calls (zeroTimeout st)) = reported (calls st)"
  "singleSlot (zeroTimeout st) = singleSlot st"
  by (simp_all add: zeroTimeout_def singleSlot_def)

lemma scheduleRetry_observed:
  "attempted (calls (scheduleRetry st)) = attempted (calls st)"
  "reported (calls (scheduleRetry st)) = reported (calls st)"
  "retryStartTimer (scheduleRetry st) = Some (lastHandle (scheduleRetry st))"
  "running (scheduleRetry st) = running st"
  by (simp_all add: scheduleRetry_def Let_def setTimer_def clearTimer_def split: option.splits)

lemma scheduleRetry_pending:
  assumes "singleSlot st"
  shows "pendingRetries (scheduleRetry st) = [(lastHandle (scheduleRetry st), 1000)]"
    and "singleSlot (scheduleRetry st)"
proof -
  have none: "filter (\<lambda>e. fst (snd e) = StartTask) (timers st) = []"
    if "retryStartTimer st = None \<or> retryStartTimer st = Some 0"
    using assms that by (auto simp add: singleSlot_def list_all_iff filter_empty_conv)
  have cleared: "filter (\<lambda>e. fst (snd e) = StartTask) (filter (\<lambda>e. fst e \<noteq> h) (timers st)) = []"
    if "retryStartTimer st = Some h" for h
    using assms that by (auto simp add: singleSlot_def list_all_iff filter_empty_conv)
  show "pendingRetries (scheduleRetry st) = [(lastHandle (scheduleRetry st), 1000)]"
    using none cleared
    by (auto simp add: scheduleRetry_def Let_def setTimer_def clearTimer_def pendingRetries_def
        split: option.splits)
  show "singleSlot (scheduleRetry st)"
    using assms
    by (fastforce simp add: scheduleRetry_def Let_def setTimer_def clearTimer_def singleSlot_def
        list_all_iff split: option.splits)
qed

lemma onFailure_observed:
  "attempted (calls (onFailure st)) = attempted (calls st)"
  "reported (calls (onFailure st)) = reported (calls st) @ [''no-camera'']"
  "retryStartTimer (onFailure st) = Some (lastHandle (onFailure st))"
  "running (onFailure st) = running st"
  by (simp_all add: onFailure_def scheduleRetry_observed attempted_append reported_append)

lemma onFailure_pending:
  assumes "singleSlot st"
  shows "pendingRetries (onFailure st) = [(lastHandle (onFailure st), 1000)]"
    and "singleSlot (onFailure st)"
proof -
  have "singleSlot (st\<lparr> calls := calls st @ [RemoveInitializing, OnError ''no-camera''] \<rparr>)"
    using assms by (simp add: singleSlot_def)
  from scheduleRetry_pending [OF this]
  show "pendingRetries (onFailure st) = [(lastHandle (onFailure st), 1000)]"
    and "singleSlot (onFailure st)"
    by (simp_all add: onFailure_def)
qed

lemma onLoadedMetadata_observed:
  "attempted (calls (onLoadedMetadata st)) = attempted (calls st)"
  "reported (calls (onLoadedMetadata st)) = reported (calls st)"
  "running (onLoadedMetadata st)" "capturing (onLoadedMetadata st)"
  by (simp_all add: onLoadedMetadata_def Let_def setTimer_def attempted_append reported_append)

lemma singleSlot_onLoadedMetadata: "singleSlot st \<Longrightarrow> singleSlot (onLoadedMetadata st)"
  by (auto simp add: onLoadedMetadata_def Let_def setTimer_def singleSlot_def list_all_iff)

lemma onSuccess_observed:
  "attempted (calls (onSuccess st)) = attempted (calls st)"
  "reported (calls (onSuccess st)) = reported (calls st)"
  "running (onSuccess st) = running st" "capturing (onSuccess st) = capturing st"
  by (simp_all add: onSuccess_def Let_def setTimer_def clearTimer_def attempted_append
      reported_append split: option.splits)

lemma onSuccess_pending:
  assumes "singleSlot st"
  shows "pendingRetries (onSuccess st) = []" and "singleSlot (onSuccess st)"
  using assms
  by (auto simp add: onSuccess_def Let_def setTimer_def clearTimer_def pendingRetries_def
      singleSlot_def list_all_iff filter_empty_conv split: option.splits)

lemma refusals_spec:
  "refusals env \<le> length RESOLUTIONS \<and>
   (\<forall>i < refusals env. outcomeAt env i = Refused) \<and>
   (refusals env < length RESOLUTIONS \<longrightarrow> outcomeAt env (refusals env) \<noteq> Refused)"
proof -
  let ?P = "\<lambda>i. outcomeAt env i = Refused"
  let ?xs = "[0..<length RESOLUTIONS]"
  let ?k = "length (takeWhile ?P ?xs)"
  have k: "refusals env = ?k" by (simp add: refusals_def answerFrom_def)
  have le: "?k \<le> length RESOLUTIONS"
    using length_takeWhile_le [of ?P ?xs] by simp
  have all: "\<forall>i < ?k. ?P i"
  proof (intro allI impI)
    fix i assume i: "i < ?k"
    then have "takeWhile ?P ?xs ! i = ?xs ! i" by (rule takeWhile_nth)
    moreover have "takeWhile ?P ?xs ! i \<in> set (takeWhile ?P ?xs)" using i by simp
    moreover have "?xs ! i = i" using i le by simp
    ultimately show "?P i" using set_takeWhileD by fastforce
  qed
  have stop: "?k < length RESOLUTIONS \<longrightarrow> \<not> ?P ?k"
  proof
    assume lt: "?k < length RESOLUTIONS"
    then have "?k < length ?xs" by simp
    then have "\<not> ?P (?xs ! ?k)" by (rule nth_length_takeWhile)
    then show "\<not> ?P ?k" using lt by simp
  qed
  show ?thesis unfolding k using le all stop by blast
qed

lemma haltFrom_here:
  "index < length RESOLUTIONS \<Longrightarrow> lockedAt env index \<or> outcomeAt env index \<noteq> Refused \<Longrightarrow>
   haltFrom env index = index"
  unfolding haltFrom_def by (subst upt_conv_Cons) auto

lemma haltFrom_next:
  "index < length RESOLUTIONS \<Longrightarrow> \<not> lockedAt env index \<Longrightarrow> outcomeAt env index = Refused \<Longrightarrow>
   haltFrom env index = haltFrom env (Suc index)"
  unfolding haltFrom_def by (subst upt_conv_Cons) simp_all

lemma haltFrom_end: "haltFrom env (length RESOLUTIONS) = length RESOLUTIONS"
  by (simp add: haltFrom_def)

lemma haltFrom_ge: "index \<le> length RESOLUTIONS \<Longrightarrow> index \<le> haltFrom env index"
  by (simp add: haltFrom_def)

lemma take_drop_cons:
  assumes "i < length xs" and "i < n"
  shows "take (n - i) (drop i xs) = xs ! i # take (n - Suc i) (drop (Suc i) xs)"
proof -
  have "n - i = Suc (n - Suc i)" using assms(2) by simp
  moreover have "drop i xs = xs ! i # drop (Suc i) xs"
    using assms(1) by (rule Cons_nth_drop_Suc [symmetric])
  ultimately show ?thesis by simp
qed

lemma take_drop_one: "i < length xs \<Longrightarrow> take (Suc 0) (drop i xs) = [xs ! i]"
  by (simp add: Cons_nth_drop_Suc [symmetric])

declare tryNextResolution.simps [simp del]

lemma ladder_locks:
  assumes "index < length RESOLUTIONS" and "singleSlot st"
  shows "\<exists>st'. tryNextResolution env index st = Inr st' \<and> singleSlot st' \<and>
           attempted (calls st') =
             attempted (calls st) @
               take ((if haltFrom env index < length RESOLUTIONS \<and> lockedAt env (haltFrom env index)
                      then haltFrom env index else Suc (haltFrom env index)) - index)
                 (drop index RESOLUTIONS) \<and>
           reported (calls st') =
             reported (calls st) @
               (if haltFrom env index = length RESOLUTIONS then [''no-camera''] else []) \<and>
           (if haltFrom env index = length RESOLUTIONS
            then pendingRetries st' = [(lastHandle st', 1000)] \<and>
                 retryStartTimer st' = Some (lastHandle st') \<and> \<not> running st'
            else if lockedAt env (haltFrom env index)
            then pendingRetries st' = [(lastHandle st', 1000)] \<and>
                 retryStartTimer st' = Some (lastHandle st') \<and>
                 running st' = (haltFrom env index = index \<and> running st)
            else if outcomeAt env (haltFrom env index) = Granted
            then running st' \<and> capturing st' \<and> pendingRetries st' = []
            else \<not> running st')"
  using assms
proof (induction env index st rule: tryNextResolution.induct)
  case (1 env index st)
  let ?r = "RESOLUTIONS ! index"
  let ?st1 = "startWithResolution ?r st"
  have lt: "index < length RESOLUTIONS" using "1.prems" by simp
  have s1: "singleSlot ?st1"
    using "1.prems"(2) by (rule singleSlot_startWithResolution)
  show ?case
  proof (cases "lockedAt env index")
    case True
    then have a: "haltFrom env index = index" using lt by (simp add: haltFrom_here)
    have run: "tryNextResolution env index st = Inr (scheduleRetry st)"
      using True by (subst tryNextResolution.simps) simp
    show ?thesis
      unfolding run a
      using lt True scheduleRetry_pending [OF "1.prems"(2)]
      by (simp add: scheduleRetry_observed)
  next
    case nl: False
    show ?thesis
    proof (cases "outcomeAt env index")
      case Granted
      then have a: "haltFrom env index = index" using lt by (simp add: haltFrom_here)
      have run: "tryNextResolution env index st = Inr (onSuccess (onLoadedMetadata ?st1))"
        using nl lt Granted by (subst tryNextResolution.simps) (simp add: Let_def)
      have s2: "singleSlot (onLoadedMetadata ?st1)"
        using s1 by (rule singleSlot_onLoadedMetadata)
      show ?thesis
        unfolding run a
        using lt nl Granted onSuccess_pending [OF s2]
        by (simp add: onSuccess_observed onLoadedMetadata_observed startWithResolution_observed
            take_drop_one)
    next
      case Unanswered
      then have a: "haltFrom env index = index" using lt by (simp add: haltFrom_here)
      have run: "tryNextResolution env index st = Inr ?st1"
        using nl lt Unanswered by (subst tryNextResolution.simps) (simp add: Let_def)
      show ?thesis
        unfolding run a
        using lt nl Unanswered s1
        by (simp add: startWithResolution_observed take_drop_one)
    next
      case Refused
      then have a: "haltFrom env index = haltFrom env (Suc index)"
        using lt nl by (simp add: haltFrom_next)
      show ?thesis
      proof (cases "Suc index < length RESOLUTIONS")
        case True
        let ?h = "haltFrom env (Suc index)"
        let ?n = "if ?h < length RESOLUTIONS \<and> lockedAt env ?h then ?h else Suc ?h"
        have run: "tryNextResolution env index st = tryNextResolution env (Suc index) (zeroTimeout ?st1)"
          using nl lt Refused True by (subst tryNextResolution.simps) (simp add: Let_def)
        have s2: "singleSlot (zeroTimeout ?st1)" using s1 by (simp add: zeroTimeout_observed)
        have ge: "Suc index \<le> ?h"
          using haltFrom_ge [of "Suc index" env] True by simp
        have nr: "\<not> running (zeroTimeout ?st1)"
          by (simp add: zeroTimeout_def startWithResolution_observed)
        from "1.IH" [OF nl _ refl Refused True True s2] lt
        obtain st' where st': "tryNextResolution env (Suc index) (zeroTimeout ?st1) = Inr st'"
          and rest: "singleSlot st'"
            "attempted (calls st') =
               attempted (calls (zeroTimeout ?st1)) @ take (?n - Suc index) (drop (Suc index) RESOLUTIONS)"
            "reported (calls st') =
               reported (calls (zeroTimeout ?st1)) @
                 (if ?h = length RESOLUTIONS then [''no-camera''] else [])"
            "(if ?h = length RESOLUTIONS
              then pendingRetries st' = [(lastHandle st', 1000)] \<and>
                   retryStartTimer st' = Some (lastHandle st') \<and> \<not> running st'
              else if lockedAt env ?h
              then pendingRetries st' = [(lastHandle st', 1000)] \<and>
                   retryStartTimer st' = Some (lastHandle st') \<and>
                   running st' = (?h = Suc index \<and> running (zeroTimeout ?st1))
              else if outcomeAt env ?h = Granted
              then running st' \<and> capturing st' \<and> pendingRetries st' = []
              else \<not> running st')"
          by auto
        have pos: "index < ?n" "Suc ?n - Suc index = ?n - index" using ge by auto
        have tk: "take (?n - index) (drop index RESOLUTIONS) =
                  ?r # take (?n - Suc index) (drop (Suc index) RESOLUTIONS)"
          using lt pos(1) by (rule take_drop_cons)
        have att: "attempted (calls st') =
               attempted (calls st) @ take (?n - index) (drop index RESOLUTIONS)"
          unfolding rest(2) tk
          by (simp add: zeroTimeout_observed startWithResolution_observed)
        have rep: "reported (calls st') =
               reported (calls st) @ (if ?h = length RESOLUTIONS then [''no-camera''] else [])"
          unfolding rest(3) by (simp add: zeroTimeout_observed startWithResolution_observed)
        have fin: "(if ?h = length RESOLUTIONS
              then pendingRetries st' = [(lastHandle st', 1000)] \<and>
                   retryStartTimer st' = Some (lastHandle st') \<and> \<not> running st'
              else if lockedAt env ?h
              then pendingRetries st' = [(lastHandle st', 1000)] \<and>
                   retryStartTimer st' = Some (lastHandle st') \<and>
                   running st' = (?h = index \<and> running st)
              else if outcomeAt env ?h = Granted
              then running st' \<and> capturing st' \<and> pendingRetries st' = []
              else \<not> running st')"
          using rest(4) nr ge by auto
        show ?thesis
          unfolding run a using st' rest(1) att rep fin by blast
      next
        case False
        then have e: "Suc index = length RESOLUTIONS" using lt by simp
        have a': "haltFrom env index = length RESOLUTIONS"
          unfolding a e by (rule haltFrom_end)
        have run: "tryNextResolution env index st = Inr (onFailure ?st1)"
          using nl lt Refused False by (subst tryNextResolution.simps) (simp add: Let_def)
        have d: "Suc (length RESOLUTIONS) - index = Suc (Suc 0)" using e by simp
        have dr: "drop index RESOLUTIONS = [?r]"
          using Cons_nth_drop_Suc [OF lt] e by simp
        show ?thesis
          unfolding run a'
          using onFailure_pending [OF s1]
          by (simp add: onFailure_observed startWithResolution_observed d dr)
      qed
    qed
  qed
qed

lemma haltIndex_spec:
  "haltIndex env \<le> length RESOLUTIONS \<and>
   (\<forall>i < haltIndex env. \<not> lockedAt env i \<and> outcomeAt env i = Refused) \<and>
   (haltIndex env < length RESOLUTIONS \<longrightarrow>
      lockedAt env (haltIndex env) \<or> outcomeAt env (haltIndex env) \<noteq> Refused)"
proof -
  let ?P = "\<lambda>i. \<not> lockedAt env i \<and> outcomeAt env i = Refused"
  let ?xs = "[0..<length RESOLUTIONS]"
  let ?k = "length (takeWhile ?P ?xs)"
  have k: "haltIndex env = ?k" by (simp add: haltIndex_def haltFrom_def)
  have le: "?k \<le> length RESOLUTIONS"
    using length_takeWhile_le [of ?P ?xs] by simp
  have all: "\<forall>i < ?k. ?P i"
  proof (intro allI impI)
    fix i assume i: "i < ?k"
    then have "takeWhile ?P ?xs ! i = ?xs ! i" by (rule takeWhile_nth)
    moreover have "takeWhile ?P ?xs ! i \<in> set (takeWhile ?P ?xs)" using i by simp
    moreover have "?xs ! i = i" using i le by simp
    ultimately show "?P i" using set_takeWhileD by fastforce
  qed
  have stop: "?k < length RESOLUTIONS \<longrightarrow> \<not> ?P ?k"
  proof
    assume lt: "?k < length RESOLUTIONS"
    then have "?k < length ?xs" by simp
    then have "\<not> ?P (?xs ! ?k)" by (rule nth_length_takeWhile)
    then show "\<not> ?P ?k" using lt by simp
  qed
  show ?thesis unfolding k using le all stop by blast
qed

lemma haltIndex_unlocked:
  assumes "\<forall>j < length RESOLUTIONS. \<not> lockedAt env j"
  shows "haltIndex env = refusals env"
proof -
  have "takeWhile (\<lambda>i. \<not> lockedAt env i \<and> outcomeAt env i = Refused) [0..<length RESOLUTIONS] =
        takeWhile (\<lambda>i. outcomeAt env i = Refused) [0..<length RESOLUTIONS]"
    using assms by (intro takeWhile_cong) auto
  then show ?thesis by (simp add: haltIndex_def haltFrom_def refusals_def answerFrom_def)
qed

text \<open>
  C3, as the code has it. Take any call of \<^verbatim>\<open>start_\<close> in a state where the only retry
  timer that can be pending is the one in the slot \<^verbatim>\<open>retryStartTimer_\<close>. It requests the
  resolutions 1920x1080, 1280x720, 800x600, 640x480 in this order and halts at the first
  attempt at which the device is locked or the request is not refused; while the device
  is never locked this is the first request that is not refused.
  If all four are requested and refused, it reports no-camera once, exactly one retry timer
  is pending afterwards, with delay 1000 ms and its handle in the slot (a retry that was
  pending before is cleared), and the capture does not run.
  If it halts because the device is locked, when \<^verbatim>\<open>start_\<close> is called or before a later
  attempt, the resolution of that attempt and those after it are not requested, nothing
  is reported, and again exactly one retry timer is pending, with delay 1000 ms and its
  handle in the slot.
  If it halts at a request that is granted, the capture runs, nothing is reported and no
  retry stays pending.
\<close>

theorem negotiation_ladder:
  assumes "singleSlot st"
  shows "((\<forall>j < length RESOLUTIONS. \<not> lockedAt env j) \<longrightarrow> haltIndex env = refusals env) \<and>
         (\<exists>st'. start env st = Inr st' \<and> singleSlot st' \<and>
           attempted (calls st') =
             attempted (calls st) @
               take (if haltIndex env < length RESOLUTIONS \<and> lockedAt env (haltIndex env)
                     then haltIndex env else Suc (haltIndex env)) RESOLUTIONS \<and>
           reported (calls st') =
             reported (calls st) @
               (if haltIndex env = length RESOLUTIONS then [''no-camera''] else []) \<and>
           (if haltIndex env = length RESOLUTIONS
            then pendingRetries st' = [(lastHandle st', 1000)] \<and>
                 retryStartTimer st' = Some (lastHandle st') \<and> \<not> running st'
            else if lockedAt env (haltIndex env)
            then pendingRetries st' = [(lastHandle st', 1000)] \<and>
                 retryStartTimer st' = Some (lastHandle st') \<and>
                 running st' = (haltIndex env = 0 \<and> running st)
            else if outcomeAt env (haltIndex env) = Granted
            then running st' \<and> capturing st' \<and> pendingRetries st' = []
            else \<not> running st'))"
proof
  show "(\<forall>j < length RESOLUTIONS. \<not> lockedAt env j) \<longrightarrow> haltIndex env = refusals env"
    using haltIndex_unlocked by blast
  have n: "0 < length RESOLUTIONS" by (simp add: RESOLUTIONS_def)
  have e: "start env st = tryNextResolution env 0 st"
  proof (cases "lockedAt env 0")
    case True
    then show ?thesis by (subst tryNextResolution.simps) (simp add: start_def)
  next
    case False
    then show ?thesis by (simp add: start_def)
  qed
  from ladder_locks [OF n assms, of env]
  show "\<exists>st'. start env st = Inr st' \<and> singleSlot st' \<and>
           attempted (calls st') =
             attempted (calls st) @
               take (if haltIndex env < length RESOLUTIONS \<and> lockedAt env (haltIndex env)
                     then haltIndex env else Suc (haltIndex env)) RESOLUTIONS \<and>
           reported (calls st') =
             reported (calls st) @
               (if haltIndex env = length RESOLUTIONS then [''no-camera''] else []) \<and>
           (if haltIndex env = length RESOLUTIONS
            then pendingRetries st' = [(lastHandle st', 1000)] \<and>
                 retryStartTimer st' = Some (lastHandle st') \<and> \<not> running st'
            else if lockedAt env (haltIndex env)
            then pendingRetries st' = [(lastHandle st', 1000)] \<and>
                 retryStartTimer st' = Some (lastHandle st') \<and>
                 running st' = (haltIndex env = 0 \<and> running st)
            else if outcomeAt env (haltIndex env) = Granted
            then running st' \<and> capturing st' \<and> pendingRetries st' = []
            else \<not> running st')"
    unfolding e haltIndex_def diff_zero drop_0 .
qed

theorem negotiation_ladder_witness:
  "negotiated (start refusingScript waitingCapture) = Some (RESOLUTIONS, [''no-camera''], [1000], False) \<and>
   negotiated (start grantingScript waitingCapture) = Some (take 3 RESOLUTIONS, [], [], True) \<and>
   negotiated (start lockingScript waitingCapture) = Some (take 1 RESOLUTIONS, [], [1000], False) \<and>
   negotiated (start lockedScript waitingCapture) = Some ([], [], [1000], False)"
proof -
  have s: "singleSlot waitingCapture" by (simp add: singleSlot_def waitingCapture_def)
  have r: "haltIndex refusingScript = 4" "haltIndex grantingScript = 2"
    "haltIndex lockingScript = Suc 0" "haltIndex lockedScript = 0"
    "length RESOLUTIONS = 4" "outcomeAt grantingScript 2 = Granted"
    "\<not> lockedAt grantingScript 2" "lockedAt lockingScript (Suc 0)" "lockedAt lockedScript 0"
    "calls waitingCapture = []" "\<not> running waitingCapture"
    by code_simp+
  from negotiation_ladder [OF s, of refusingScript] have a:
    "negotiated (start refusingScript waitingCapture) = Some (RESOLUTIONS, [''no-camera''], [1000], False)"
    by (auto simp add: r negotiated_def)
  from negotiation_ladder [OF s, of grantingScript] have b:
    "negotiated (start grantingScript waitingCapture) = Some (take 3 RESOLUTIONS, [], [], True)"
    by (auto simp add: r negotiated_def)
  from negotiation_ladder [OF s, of lockingScript] have c:
    "negotiated (start lockingScript waitingCapture) = Some (take 1 RESOLUTIONS, [], [1000], False)"
    by (auto simp add: r negotiated_def)
  from negotiation_ladder [OF s, of lockedScript] have d:
    "negotiated (start lockedScript waitingCapture) = Some ([], [], [1000], False)"
    by (auto simp add: r negotiated_def)
  from a b c d show ?thesis by blast
qed

text \<open>
  C3, as stated, fails when the device is locked: locked when \<^verbatim>\<open>start_\<close> is called, no
  resolution is requested at all; locked after the first refusal, only 1920x1080 is
  requested. In both cases no request succeeds, nothing is reported and a retry is
  scheduled after 1000 ms.
\<close>

theorem negotiation_locked_counterexample:
  "negotiated (start lockedScript idleCapture) = Some ([], [], [1000], False) \<and>
   negotiated (start lockingScript idleCapture) = Some ([(1920, 1080)], [], [1000], False)"
  by code_simp

end
